theory Spec2Isabelle
  imports Main "HOL-Library.Word" "HOL-Library.Sublist"
begin

section \<open>README metadata extractor (\<^verbatim>\<open>src/lib/readme-parser.ts\<close>)\<close>

subsection \<open>Strings\<close>

text \<open>
  A JavaScript string is a sequence of UTF-16 code units; \<^verbatim>\<open>length\<close>, \<^verbatim>\<open>charAt\<close>,
  \<^verbatim>\<open>slice\<close>, \<^verbatim>\<open>split\<close> and regular expressions without the \<^verbatim>\<open>u\<close> flag all count
  code units. \<open>js\<close> writes an ASCII literal as such a sequence.
\<close>

type_synonym u16 = "16 word"
type_synonym jsstring = "u16 list"

definition js :: "string \<Rightarrow> jsstring" where
  "js s = map of_char s"

text \<open>
  \<^verbatim>\<open>\s\<close> in a regular expression and \<^verbatim>\<open>String.prototype.trim\<close> use the same set:
  WhiteSpace (TAB, VT, FF, SP, NBSP, ZWNBSP and the category Zs) together with
  LineTerminator (LF, CR, LS, PS). \<^verbatim>\<open>.\<close> (no \<^verbatim>\<open>s\<close> flag) is every code unit that is not
  a LineTerminator, and \<^verbatim>\<open>^\<close>, \<^verbatim>\<open>$\<close> with the \<^verbatim>\<open>m\<close> flag look at LineTerminators.
\<close>

definition isLineTerminator :: "u16 \<Rightarrow> bool" where
  "isLineTerminator c \<longleftrightarrow> c = 0x0A \<or> c = 0x0D \<or> c = 0x2028 \<or> c = 0x2029"

definition isSpace :: "u16 \<Rightarrow> bool" where
  "isSpace c \<longleftrightarrow>
     c = 0x09 \<or> c = 0x0B \<or> c = 0x0C \<or> c = 0x20 \<or> c = 0xA0 \<or> c = 0xFEFF \<or>
     c = 0x1680 \<or> (0x2000 \<le> c \<and> c \<le> 0x200A) \<or> c = 0x202F \<or> c = 0x205F \<or> c = 0x3000 \<or>
     isLineTerminator c"

definition trim :: "jsstring \<Rightarrow> jsstring" where
  "trim s = rev (dropWhile isSpace (rev (dropWhile isSpace s)))"

text \<open>\<^verbatim>\<open>s.split(sep)\<close> for a one-unit separator: never the empty array, \<^verbatim>\<open>"".split(sep)\<close> is \<^verbatim>\<open>[""]\<close>.\<close>

fun split :: "u16 \<Rightarrow> jsstring \<Rightarrow> jsstring list" where
  "split sep [] = [[]]"
| "split sep (c # s) =
     (if c = sep then [] # split sep s
      else (case split sep s of [] \<Rightarrow> [[c]] | l # ls \<Rightarrow> (c # l) # ls))"

text \<open>\<^verbatim>\<open>parts.join(sep)\<close>.\<close>

fun join :: "jsstring \<Rightarrow> jsstring list \<Rightarrow> jsstring" where
  "join sep [] = []"
| "join sep [x] = x"
| "join sep (x # y # ys) = x @ sep @ join sep (y # ys)"

text \<open>\<^verbatim>\<open>line.startsWith('#')\<close>.\<close>

fun startsWithHash :: "jsstring \<Rightarrow> bool" where
  "startsWithHash [] = False"
| "startsWithHash (c # s) = (c = 0x23)"

subsection \<open>Title\<close>

text \<open>
  \<^verbatim>\<open>(.+)$\<close> with the \<^verbatim>\<open>m\<close> flag, tried at the start of \<open>s\<close>: the greedy \<^verbatim>\<open>.+\<close> takes the
  whole run of units that are not LineTerminators, where \<^verbatim>\<open>$\<close> holds (end of input or a
  LineTerminator follows), so no shorter run is ever tried. It fails when the run is empty.
\<close>

definition restOfLine :: "jsstring \<Rightarrow> jsstring option" where
  "restOfLine s =
     (let g = takeWhile (\<lambda>c. \<not> isLineTerminator c) s in if g = [] then None else Some g)"

text \<open>
  \<^verbatim>\<open>\s*(.+)$\<close>: the greedy star first takes one more whitespace unit and goes on; when the
  rest fails that way it gives the unit back and \<^verbatim>\<open>(.+)$\<close> is tried where it stands.
\<close>

fun spacesThenRest :: "jsstring \<Rightarrow> jsstring option" where
  "spacesThenRest [] = restOfLine []"
| "spacesThenRest (c # s) =
     (if isSpace c then
        (case spacesThenRest s of Some g \<Rightarrow> Some g | None \<Rightarrow> restOfLine (c # s))
      else restOfLine (c # s))"

text \<open>\<^verbatim>\<open>#\s+(.+)$\<close> and \<^verbatim>\<open>##\s+(.+)$\<close> tried at the start of \<open>s\<close>; the result is group 1.\<close>

fun h1At :: "jsstring \<Rightarrow> jsstring option" where
  "h1At (c # d # s) = (if c = 0x23 \<and> isSpace d then spacesThenRest s else None)"
| "h1At _ = None"

fun h2At :: "jsstring \<Rightarrow> jsstring option" where
  "h2At (c # c' # d # s) =
     (if c = 0x23 \<and> c' = 0x23 \<and> isSpace d then spacesThenRest s else None)"
| "h2At _ = None"

text \<open>
  \<^verbatim>\<open>content.match(/^...$/m)\<close>: the pattern is tried at every index from 0 up to the
  length; \<^verbatim>\<open>^\<close> holds at index 0 and after a LineTerminator (\<open>bol\<close>). The first index
  where it matches wins.
\<close>

fun searchLines :: "(jsstring \<Rightarrow> 'a option) \<Rightarrow> bool \<Rightarrow> jsstring \<Rightarrow> 'a option" where
  "searchLines m bol [] = (if bol then m [] else None)"
| "searchLines m bol (c # s) =
     (case (if bol then m (c # s) else None) of
        Some r \<Rightarrow> Some r
      | None \<Rightarrow> searchLines m (isLineTerminator c) s)"

definition h1Match :: "jsstring \<Rightarrow> jsstring option" where
  "h1Match content = searchLines h1At True content"

definition h2Match :: "jsstring \<Rightarrow> jsstring option" where
  "h2Match content = searchLines h2At True content"

text \<open>\<^verbatim>\<open>firstLine.match(/^[#*\-\[\]`]/)\<close>, no \<^verbatim>\<open>m\<close> flag: only the first unit is looked at.\<close>

definition isMarker :: "u16 \<Rightarrow> bool" where
  "isMarker c \<longleftrightarrow> c = 0x23 \<or> c = 0x2A \<or> c = 0x2D \<or> c = 0x5B \<or> c = 0x5D \<or> c = 0x60"

fun startsWithMarker :: "jsstring \<Rightarrow> bool" where
  "startsWithMarker [] = False"
| "startsWithMarker (c # s) = isMarker c"

text \<open>
  \<^verbatim>\<open>formatRepoName\<close>. \<^verbatim>\<open>String.prototype.toUpperCase\<close> is the host's Unicode case mapping;
  it is the parameter \<open>up\<close>. \<open>toUpperCaseAscii\<close> is that mapping on the ASCII letters,
  with every other code unit left as it is.
\<close>

definition capitalize :: "(jsstring \<Rightarrow> jsstring) \<Rightarrow> jsstring \<Rightarrow> jsstring" where
  "capitalize up word = up (take 1 word) @ drop 1 word"

definition formatRepoName :: "(jsstring \<Rightarrow> jsstring) \<Rightarrow> jsstring \<Rightarrow> jsstring" where
  "formatRepoName up repoName = join [0x20] (map (capitalize up) (split 0x2D repoName))"

definition toUpperCaseAscii :: "jsstring \<Rightarrow> jsstring" where
  "toUpperCaseAscii s = map (\<lambda>c. if 0x61 \<le> c \<and> c \<le> 0x7A then c - 0x20 else c) s"

definition extractTitle :: "(jsstring \<Rightarrow> jsstring) \<Rightarrow> jsstring \<Rightarrow> jsstring \<Rightarrow> jsstring" where
  "extractTitle up content repoName =
     (case h1Match content of
        Some g \<Rightarrow> trim g
      | None \<Rightarrow>
         (case h2Match content of
            Some g \<Rightarrow> trim g
          | None \<Rightarrow>
             (case filter (\<lambda>line. trim line \<noteq> []) (split 0x0A content) of
                [] \<Rightarrow> formatRepoName up repoName
              | l # ls \<Rightarrow>
                 (let firstLine = trim l in
                  if length firstLine > 0 \<and> length firstLine < 100 \<and> \<not> startsWithMarker firstLine
                  then firstLine
                  else formatRepoName up repoName))))"

subsection \<open>Description\<close>

text \<open>
  \<^verbatim>\<open>lines[i].trim()\<close>: an index outside the array reads \<^verbatim>\<open>undefined\<close>, and the method call
  on it throws a TypeError. That is the only way this module can throw.
\<close>

datatype error = TypeError

definition at :: "'a list \<Rightarrow> nat \<Rightarrow> error + 'a" where
  "at xs i = (if i < length xs then Inr (xs ! i) else Inl TypeError)"

text \<open>The first loop of \<^verbatim>\<open>extractDescription\<close>, entered with \<open>i = 0\<close> and \<open>startIndex = 0\<close>.\<close>

function skipLoop :: "jsstring list \<Rightarrow> nat \<Rightarrow> nat \<Rightarrow> error + nat" where
  "skipLoop lines i startIndex =
     (if i < min 5 (length lines) then
        (case at lines i of
           Inl e \<Rightarrow> Inl e
         | Inr l \<Rightarrow>
            (let line = trim l in
             if startsWithHash line \<or> length line = 0 then skipLoop lines (i + 1) (i + 1)
             else Inr startIndex))
      else Inr startIndex)"
  by pat_completeness auto
termination
  by (relation "measure (\<lambda>(lines, i, startIndex). min 5 (length lines) - i)") auto

text \<open>\<^verbatim>\<open>description.match(/[.!?]\s/)\<close>: the index of the first match.\<close>

definition isSentencePunct :: "u16 \<Rightarrow> bool" where
  "isSentencePunct c \<longleftrightarrow> c = 0x2E \<or> c = 0x21 \<or> c = 0x3F"

fun sentenceEnd :: "jsstring \<Rightarrow> nat option" where
  "sentenceEnd (c # d # s) =
     (if isSentencePunct c \<and> isSpace d then Some 0
      else map_option Suc (sentenceEnd (d # s)))"
| "sentenceEnd _ = None"

text \<open>The second loop, entered with \<open>i = startIndex\<close> and the empty description.\<close>

function accLoop :: "jsstring list \<Rightarrow> nat \<Rightarrow> jsstring \<Rightarrow> error + jsstring" where
  "accLoop lines i description =
     (if i < length lines then
        (case at lines i of
           Inl e \<Rightarrow> Inl e
         | Inr l \<Rightarrow>
            (let line = trim l in
             if startsWithHash line then Inr description
             else if length description = 0 \<and> length line = 0 then
               accLoop lines (i + 1) description
             else if length line > 0 then
               (let description' =
                      description @ (if description \<noteq> [] then [0x20] else []) @ line in
                if length description' > 150 then
                  (case sentenceEnd description' of
                     Some idx \<Rightarrow> Inr (trim (take (idx + 1) description'))
                   | None \<Rightarrow> Inr description')
                else accLoop lines (i + 1) description')
             else if length description > 0 then Inr description
             else accLoop lines (i + 1) description))
      else Inr description)"
  by pat_completeness auto
termination
  by (relation "measure (\<lambda>(lines, i, description). length lines - i)") auto

text \<open>
  The four patterns of the clean-up: \<^verbatim>\<open>\[([^\]]+)\]\([^\)]+\)\<close>, \<^verbatim>\<open>\*\*([^*]+)\*\*\<close>,
  \<^verbatim>\<open>\*([^*]+)\*\<close> and \<^verbatim>\<open>`([^`]+)`\<close>.

  \<open>runUntil x close s\<close> is \<^verbatim>\<open>[^x]+\<close> followed by the literal \<open>close\<close>, tried at the start of
  \<open>s\<close>; it gives the run and what follows the literal. The greedy run stops at the first
  \<open>x\<close> or at the end; every \<open>close\<close> used here begins with \<open>x\<close>, so after a shorter run the
  literal can not match and giving units back never helps.
\<close>

definition runUntil :: "u16 \<Rightarrow> jsstring \<Rightarrow> jsstring \<Rightarrow> (jsstring \<times> jsstring) option" where
  "runUntil x close s =
     (let g = takeWhile (\<lambda>c. c \<noteq> x) s; r = dropWhile (\<lambda>c. c \<noteq> x) s in
      if g \<noteq> [] \<and> prefix close r then Some (g, drop (length close) r) else None)"

datatype decoration = Link | Bold | Italic | Code

text \<open>A pattern tried at the start of \<open>s\<close>: group 1 and the input after the match.\<close>

fun matchAt :: "decoration \<Rightarrow> jsstring \<Rightarrow> (jsstring \<times> jsstring) option" where
  "matchAt Link s =
     (case s of
        [] \<Rightarrow> None
      | c # s1 \<Rightarrow>
         if c = 0x5B then
           (case runUntil 0x5D [0x5D, 0x28] s1 of
              None \<Rightarrow> None
            | Some (text, s2) \<Rightarrow>
               (case runUntil 0x29 [0x29] s2 of
                  None \<Rightarrow> None
                | Some (url, s3) \<Rightarrow> Some (text, s3)))
         else None)"
| "matchAt Bold s =
     (if prefix [0x2A, 0x2A] s then runUntil 0x2A [0x2A, 0x2A] (drop 2 s) else None)"
| "matchAt Italic s =
     (if prefix [0x2A] s then runUntil 0x2A [0x2A] (drop 1 s) else None)"
| "matchAt Code s =
     (if prefix [0x60] s then runUntil 0x60 [0x60] (drop 1 s) else None)"

text \<open>
  \<^verbatim>\<open>s.replace(/.../g, '$1')\<close>: one pass from left to right; a match is replaced by its
  group 1 and the search goes on after the match, otherwise the unit is kept.
\<close>

function replaceAll :: "decoration \<Rightarrow> jsstring \<Rightarrow> jsstring" where
  "replaceAll k [] = []"
| "replaceAll k (c # s) =
     (case matchAt k (c # s) of
        Some (g, r) \<Rightarrow> g @ replaceAll k r
      | None \<Rightarrow> c # replaceAll k s)"
  by pat_completeness auto
termination
proof -
  have run: "length r \<le> length s" if "runUntil x close s = Some (g, r)"
    for x close s g r
  proof -
    have "length (dropWhile (\<lambda>c. c \<noteq> x) s) \<le> length s"
      by (rule length_dropWhile_le)
    with that show ?thesis
      by (auto simp: runUntil_def Let_def split: if_splits)
  qed
  have shorter: "length r < length s" if m: "matchAt k s = Some (g, r)" for k s g r
  proof (cases k)
    case Link
    with m obtain s1 t s2 u where s: "s = 0x5B # s1"
      and r1: "runUntil 0x5D [0x5D, 0x28] s1 = Some (t, s2)"
      and r2: "runUntil 0x29 [0x29] s2 = Some (u, r)"
      by (auto split: list.splits if_splits option.splits)
    from run [OF r1] run [OF r2] s show ?thesis by simp
  next
    case Bold
    with m have p: "prefix [0x2A, 0x2A] s"
      and r: "runUntil 0x2A [0x2A, 0x2A] (drop 2 s) = Some (g, r)"
      by (auto split: if_splits)
    from p have "length s \<ge> 2" by (auto simp: prefix_def)
    with run [OF r] show ?thesis by simp
  next
    case Italic
    with m have p: "prefix [0x2A] s" and r: "runUntil 0x2A [0x2A] (drop 1 s) = Some (g, r)"
      by (auto split: if_splits)
    from p have "length s \<ge> 1" by (auto simp: prefix_def)
    with run [OF r] show ?thesis by simp
  next
    case Code
    with m have p: "prefix [0x60] s" and r: "runUntil 0x60 [0x60] (drop 1 s) = Some (g, r)"
      by (auto split: if_splits)
    from p have "length s \<ge> 1" by (auto simp: prefix_def)
    with run [OF r] show ?thesis by simp
  qed
  show ?thesis
    by (relation "measure (\<lambda>(k, s). length s)") (auto dest: shorter)
qed

definition cleanDescription :: "jsstring \<Rightarrow> jsstring" where
  "cleanDescription description =
     trim (replaceAll Code (replaceAll Italic (replaceAll Bold (replaceAll Link description))))"

definition extractDescription :: "jsstring \<Rightarrow> error + jsstring option" where
  "extractDescription content =
     (let lines = split 0x0A content in
      case skipLoop lines 0 0 of
        Inl e \<Rightarrow> Inl e
      | Inr startIndex \<Rightarrow>
         (case accLoop lines startIndex [] of
            Inl e \<Rightarrow> Inl e
          | Inr description \<Rightarrow>
             (let cleaned = cleanDescription description in
              Inr (if length cleaned > 0 then Some cleaned else None))))"

subsection \<open>The exported function\<close>

record ReadmeData =
  title :: jsstring
  description :: "jsstring option"

definition parseReadme :: "(jsstring \<Rightarrow> jsstring) \<Rightarrow> jsstring \<Rightarrow> jsstring \<Rightarrow> error + ReadmeData" where
  "parseReadme up content repoName =
     (let t = extractTitle up content repoName in
      case extractDescription content of
        Inl e \<Rightarrow> Inl e
      | Inr d \<Rightarrow> Inr \<lparr>title = t, description = d\<rparr>)"

subsection \<open>Vocabulary of the properties\<close>

text \<open>The unit each clean-up pattern starts with.\<close>

fun opener :: "decoration \<Rightarrow> u16" where
  "opener Link = 0x5B"
| "opener Bold = 0x2A"
| "opener Italic = 0x2A"
| "opener Code = 0x60"

text \<open>
  Rules 1 and 2 as the specification words them, line by line. The lines are those that
  \<^verbatim>\<open>^\<close> and \<^verbatim>\<open>$\<close> delimit (split at every LineTerminator). A line is a level-1 heading when
  it is \<^verbatim>\<open>#\<close>, whitespace, and at least one more unit; a level-2 heading when it is \<^verbatim>\<open>##\<close>,
  whitespace, and at least one more unit. The title is what follows the hashes, trimmed.
\<close>

fun linesOf :: "jsstring \<Rightarrow> jsstring list" where
  "linesOf [] = [[]]"
| "linesOf (c # s) =
     (if isLineTerminator c then [] # linesOf s
      else (case linesOf s of [] \<Rightarrow> [[c]] | l # ls \<Rightarrow> (c # l) # ls))"

fun spec_isH1 :: "jsstring \<Rightarrow> bool" where
  "spec_isH1 (c # d # t) = (c = 0x23 \<and> isSpace d \<and> t \<noteq> [])"
| "spec_isH1 _ = False"

fun spec_isH2 :: "jsstring \<Rightarrow> bool" where
  "spec_isH2 (c # c' # d # t) = (c = 0x23 \<and> c' = 0x23 \<and> isSpace d \<and> t \<noteq> [])"
| "spec_isH2 _ = False"

definition spec_headingTitle :: "jsstring \<Rightarrow> jsstring option" where
  "spec_headingTitle content =
     (case find spec_isH1 (linesOf content) of
        Some l \<Rightarrow> Some (trim (drop 1 l))
      | None \<Rightarrow>
         (case find spec_isH2 (linesOf content) of
            Some l \<Rightarrow> Some (trim (drop 2 l))
          | None \<Rightarrow> None))"

text \<open>The same two rules as \<^verbatim>\<open>extractTitle\<close> has them.\<close>

definition headingTitle :: "jsstring \<Rightarrow> jsstring option" where
  "headingTitle content =
     (case h1Match content of
        Some g \<Rightarrow> Some (trim g)
      | None \<Rightarrow> (case h2Match content of Some g \<Rightarrow> Some (trim g) | None \<Rightarrow> None))"

text \<open>A line that is one or two hashes and then nothing but whitespace.\<close>

fun isBare :: "jsstring \<Rightarrow> bool" where
  "isBare [] = False"
| "isBare (c # r) =
     (c = 0x23 \<and>
      (list_all isSpace r \<or> (case r of [] \<Rightarrow> False | c' # r' \<Rightarrow> c' = 0x23 \<and> list_all isSpace r')))"

text \<open>
  A description seen as a sequence of plain text and decorations that are not nested. A
  decoration has a kind, an inner text and, for a link, a target. \<open>renderKeeping ks\<close> writes
  the decorations of the kinds \<open>ks\<close> in their syntax and the others as their inner text;
  \<open>render\<close> writes all of them in syntax, \<open>inner\<close> none. \<open>starFirst\<close> says that a sequence
  starts with a bold or italic decoration, and \<open>separated\<close> that no italic decoration is
  directly followed by one.
\<close>

datatype piece = Plain jsstring | Deco decoration jsstring jsstring

fun delimited :: "decoration \<Rightarrow> jsstring \<Rightarrow> jsstring \<Rightarrow> jsstring" where
  "delimited Link t u = [0x5B] @ t @ [0x5D, 0x28] @ u @ [0x29]"
| "delimited Bold t u = [0x2A, 0x2A] @ t @ [0x2A, 0x2A]"
| "delimited Italic t u = [0x2A] @ t @ [0x2A]"
| "delimited Code t u = [0x60] @ t @ [0x60]"

fun renderKeeping :: "decoration list \<Rightarrow> piece \<Rightarrow> jsstring" where
  "renderKeeping ks (Plain x) = x"
| "renderKeeping ks (Deco k t u) = (if k \<in> set ks then delimited k t u else t)"

definition render :: "piece list \<Rightarrow> jsstring" where
  "render ps = concat (map (renderKeeping [Link, Bold, Italic, Code]) ps)"

definition inner :: "piece list \<Rightarrow> jsstring" where
  "inner ps = concat (map (renderKeeping []) ps)"

fun wellFormed :: "piece \<Rightarrow> bool" where
  "wellFormed (Plain x) = (0x5B \<notin> set x \<and> 0x2A \<notin> set x \<and> 0x60 \<notin> set x)"
| "wellFormed (Deco k t u) =
     (t \<noteq> [] \<and> 0x5B \<notin> set t \<and> 0x2A \<notin> set t \<and> 0x60 \<notin> set t \<and>
      (if k = Link then 0x5D \<notin> set t \<and> u \<noteq> [] \<and> 0x29 \<notin> set u else True))"

fun starFirst :: "piece list \<Rightarrow> bool" where
  "starFirst [] = False"
| "starFirst (Plain x # ps) = (if x = [] then starFirst ps else False)"
| "starFirst (Deco k t u # ps) = (k = Bold \<or> k = Italic)"

fun separated :: "piece list \<Rightarrow> bool" where
  "separated [] = True"
| "separated (Plain x # ps) = separated ps"
| "separated (Deco k t u # ps) = ((if k = Italic then \<not> starFirst ps else True) \<and> separated ps)"

section \<open>Properties\<close>

declare skipLoop.simps [simp del] accLoop.simps [simp del]

subsection \<open>Whitespace and trimming\<close>

lemma hash_not_space: "\<not> isSpace 0x23"
  by (simp add: isSpace_def isLineTerminator_def)

lemma lineTerminator_isSpace: "isLineTerminator c \<Longrightarrow> isSpace c"
  by (simp add: isSpace_def)

lemma trim_decomp: "\<exists>a b. s = a @ trim s @ b \<and> (\<forall>c\<in>set a. isSpace c) \<and> (\<forall>c\<in>set b. isSpace c)"
proof -
  define a where "a = takeWhile isSpace s"
  define t where "t = dropWhile isSpace s"
  define b where "b = rev (takeWhile isSpace (rev t))"
  have "trim s @ b = rev (takeWhile isSpace (rev t) @ dropWhile isSpace (rev t))"
    by (simp only: trim_def b_def t_def rev_append)
  also have "\<dots> = rev (rev t)" by (simp only: takeWhile_dropWhile_id)
  finally have t: "t = trim s @ b" by simp
  have "s = a @ t" by (simp add: a_def t_def)
  with t have "s = a @ trim s @ b" by simp
  moreover have "\<forall>c\<in>set a. isSpace c"
    by (auto simp: a_def dest: set_takeWhileD)
  moreover have "\<forall>c\<in>set b. isSpace c"
    by (auto simp: b_def dest: set_takeWhileD)
  ultimately show ?thesis by blast
qed

lemma trim_hd_not_space: "trim s \<noteq> [] \<Longrightarrow> \<not> isSpace (hd (trim s))"
proof -
  assume ne: "trim s \<noteq> []"
  define t where "t = dropWhile isSpace s"
  define b where "b = takeWhile isSpace (rev t)"
  have "trim s @ rev b = rev (b @ dropWhile isSpace (rev t))"
    by (simp only: trim_def t_def rev_append)
  also have "\<dots> = rev (rev t)" by (simp only: b_def takeWhile_dropWhile_id)
  finally have t: "t = trim s @ rev b" by simp
  with ne have "t \<noteq> []" by simp
  then have "\<not> isSpace (hd t)" unfolding t_def by (rule hd_dropWhile)
  with t ne show ?thesis by (metis hd_append2)
qed

lemma trim_Nil_iff: "trim s = [] \<longleftrightarrow> (\<forall>c\<in>set s. isSpace c)"
proof
  assume "trim s = []"
  with trim_decomp [of s] show "\<forall>c\<in>set s. isSpace c"
    by (metis Un_iff append_Nil set_append)
next
  assume "\<forall>c\<in>set s. isSpace c"
  then have "dropWhile isSpace s = []" by simp
  then show "trim s = []" unfolding trim_def by (simp only: rev.simps dropWhile.simps)
qed

lemma trim_id: "s \<noteq> [] \<Longrightarrow> \<not> isSpace (hd s) \<Longrightarrow> \<not> isSpace (last s) \<Longrightarrow> trim s = s"
proof -
  assume ne: "s \<noteq> []" and h: "\<not> isSpace (hd s)" and l: "\<not> isSpace (last s)"
  from ne h have "dropWhile isSpace s = s" by (cases s) auto
  moreover from ne l have "dropWhile isSpace (rev s) = rev s"
    by (cases "rev s") (auto simp: last_rev [symmetric] hd_rev)
  ultimately show ?thesis by (simp add: trim_def)
qed

lemma restOfLine_None: "restOfLine s = None \<longleftrightarrow> (s = [] \<or> isLineTerminator (hd s))"
  by (cases s) (auto simp: restOfLine_def Let_def)

lemma restOfLine_Some: "restOfLine s = Some g \<Longrightarrow> g \<noteq> [] \<and> hd g = hd s"
  by (cases s) (auto simp: restOfLine_def Let_def split: if_splits)

lemma spacesThenRest_None: "spacesThenRest s = None \<Longrightarrow> \<forall>c\<in>set s. isLineTerminator c"
  by (induction s) (auto simp: restOfLine_None lineTerminator_isSpace split: if_splits option.splits)

lemma spacesThenRest_Some:
  "spacesThenRest s = Some g \<Longrightarrow> (\<forall>c\<in>set s. isSpace c) \<or> (g \<noteq> [] \<and> \<not> isSpace (hd g))"
proof (induction s)
  case Nil
  then show ?case by simp
next
  case (Cons c s)
  show ?case
  proof (cases "isSpace c")
    case True
    show ?thesis
    proof (cases "spacesThenRest s")
      case None
      from spacesThenRest_None [OF None] True show ?thesis
        by (auto simp: lineTerminator_isSpace)
    next
      case (Some g')
      with True Cons.prems have "g' = g" by simp
      with Cons.IH Some True show ?thesis by auto
    qed
  next
    case False
    with Cons.prems have "restOfLine (c # s) = Some g" by simp
    from restOfLine_Some [OF this] False show ?thesis by simp
  qed
qed

lemma searchLines_Some:
  "searchLines m bol s = Some g \<Longrightarrow> \<exists>pre s'. s = pre @ s' \<and> m s' = Some g"
proof (induction s arbitrary: bol)
  case Nil
  then show ?case by (auto split: if_splits)
next
  case (Cons c s)
  show ?case
  proof (cases "bol \<and> m (c # s) \<noteq> None")
    case True
    with Cons.prems have "m (c # s) = Some g" by (auto split: option.splits)
    then show ?thesis by (rule_tac x = "[]" in exI) simp
  next
    case False
    with Cons.prems have "searchLines m (isLineTerminator c) s = Some g"
      by (auto split: if_splits option.splits)
    from Cons.IH [OF this] obtain pre s' where "s = pre @ s'" "m s' = Some g" by blast
    then show ?thesis by (rule_tac x = "c # pre" in exI) simp
  qed
qed

text \<open>A heading match whose text trims to nothing: the hash is the last unit that is not whitespace.\<close>

lemma blank_heading_tail:
  assumes "spacesThenRest s = Some g" and "trim g = []"
  shows "\<forall>c\<in>set s. isSpace c"
proof -
  from spacesThenRest_Some [OF assms(1)] show ?thesis
  proof
    assume "g \<noteq> [] \<and> \<not> isSpace (hd g)"
    with assms(2) show ?thesis by (auto simp: trim_Nil_iff)
  qed
qed

lemma trim_ends_with:
  assumes "\<not> isSpace c" and "\<forall>d\<in>set w. isSpace d"
  shows "trim (pre @ c # w) \<noteq> [] \<and> last (trim (pre @ c # w)) = c"
proof -
  obtain x where x: "dropWhile isSpace (pre @ c # w) = x @ c # w"
  proof (cases "\<forall>d\<in>set pre. isSpace d")
    case True
    with assms(1) have "dropWhile isSpace (pre @ c # w) = [] @ c # w"
      by (simp add: dropWhile_append2)
    then show ?thesis by (rule that)
  next
    case False
    then have "dropWhile isSpace (pre @ c # w) = dropWhile isSpace pre @ c # w"
      by (auto simp: dropWhile_append1)
    then show ?thesis by (rule that)
  qed
  from assms have "dropWhile isSpace (rev w @ c # rev x) = c # rev x"
    by (simp add: dropWhile_append)
  with x have "trim (pre @ c # w) = x @ [c]" by (simp add: trim_def)
  then show ?thesis by simp
qed

lemma h1At_blank:
  assumes "h1At s = Some g" and "trim g = []"
  shows "\<exists>w. s = 0x23 # w \<and> (\<forall>c\<in>set w. isSpace c)"
proof -
  from assms(1) obtain d s' where s: "s = 0x23 # d # s'" and d: "isSpace d"
    and r: "spacesThenRest s' = Some g"
    by (cases s rule: h1At.cases) (auto split: if_splits)
  from blank_heading_tail [OF r assms(2)] d s show ?thesis by simp
qed

lemma h2At_blank:
  assumes "h2At s = Some g" and "trim g = []"
  shows "\<exists>w. s = 0x23 # 0x23 # w \<and> (\<forall>c\<in>set w. isSpace c)"
proof -
  from assms(1) obtain d s' where s: "s = 0x23 # 0x23 # d # s'" and d: "isSpace d"
    and r: "spacesThenRest s' = Some g"
    by (cases s rule: h2At.cases) (auto split: if_splits)
  from blank_heading_tail [OF r assms(2)] d s show ?thesis by simp
qed

lemma h1Match_blank:
  assumes "h1Match content = Some g" and "trim g = []"
  shows "trim content \<noteq> [] \<and> last (trim content) = 0x23"
proof -
  from assms(1) obtain pre s where c: "content = pre @ s" and m: "h1At s = Some g"
    unfolding h1Match_def by (blast dest: searchLines_Some)
  from h1At_blank [OF m assms(2)] obtain w where "s = 0x23 # w" "\<forall>c\<in>set w. isSpace c"
    by blast
  with c trim_ends_with [OF hash_not_space, of w pre] show ?thesis by simp
qed

lemma h2Match_blank:
  assumes "h2Match content = Some g" and "trim g = []"
  shows "trim content \<noteq> [] \<and> last (trim content) = 0x23"
proof -
  from assms(1) obtain pre s where c: "content = pre @ s" and m: "h2At s = Some g"
    unfolding h2Match_def by (blast dest: searchLines_Some)
  from h2At_blank [OF m assms(2)] obtain w where "s = 0x23 # 0x23 # w" "\<forall>c\<in>set w. isSpace c"
    by blast
  with c trim_ends_with [OF hash_not_space, of w "pre @ [0x23]"] show ?thesis by simp
qed

subsection \<open>Splitting, joining and both iterations of the description\<close>

lemma split_not_Nil: "split sep s \<noteq> []"
  by (induction s) (auto split: list.splits)

lemma split_single: "sep \<notin> set s \<Longrightarrow> split sep s = [s]"
  by (induction s) auto

lemma split_many: "sep \<in> set s \<Longrightarrow> \<exists>x y ys. split sep s = x # y # ys"
proof (induction s)
  case Nil
  then show ?case by simp
next
  case (Cons c s)
  show ?case
  proof (cases "c = sep")
    case True
    then show ?thesis using split_not_Nil [of sep s] by (cases "split sep s") auto
  next
    case False
    with Cons.prems have "sep \<in> set s" by simp
    from Cons.IH [OF this] False show ?thesis by auto
  qed
qed

lemma join_split: "join [sep] (split sep s) = s"
proof (induction s)
  case Nil
  then show ?case by simp
next
  case (Cons c s)
  obtain l ls where sp: "split sep s = l # ls"
    using split_not_Nil [of sep s] by (cases "split sep s") auto
  with Cons show ?case by (cases ls) auto
qed

lemma split_no_sep: "l \<in> set (split sep s) \<Longrightarrow> sep \<notin> set l"
  by (induction s arbitrary: l) (auto split: if_splits list.splits)

lemma formatRepoName_nonempty:
  assumes "repoName \<noteq> []" and "\<forall>c. up [c] \<noteq> []"
  shows "formatRepoName up repoName \<noteq> []"
proof (cases "0x2D \<in> set repoName")
  case True
  from split_many [OF True] obtain x y ys where "split 0x2D repoName = x # y # ys" by blast
  then show ?thesis by (simp add: formatRepoName_def)
next
  case False
  from assms(1) obtain c r where "repoName = c # r" by (cases repoName) auto
  with split_single [OF False] assms(2) show ?thesis
    by (simp add: formatRepoName_def capitalize_def)
qed

lemma skipLoop_takeWhile:
  "skipLoop lines i i =
     Inr (i + length (takeWhile (\<lambda>l. startsWithHash (trim l) \<or> trim l = []) (drop i (take 5 lines))))"
proof (induction "min 5 (length lines) - i" arbitrary: i)
  case 0
  then have d: "drop i (take 5 lines) = []" by simp
  from 0 have n: "\<not> i < min 5 (length lines)" by arith
  show ?case by (subst skipLoop.simps) (simp only: d n if_False takeWhile.simps list.size add_0_right)
next
  case (Suc n)
  from Suc.hyps(2) have lt: "i < min 5 (length lines)" by arith
  from lt have "i < length (take 5 lines)" by simp
  then have "take 5 lines ! i # drop (Suc i) (take 5 lines) = drop i (take 5 lines)"
    by (rule Cons_nth_drop_Suc)
  moreover from lt have "take 5 lines ! i = lines ! i" by simp
  ultimately have d: "drop i (take 5 lines) = lines ! i # drop (Suc i) (take 5 lines)"
    by (simp only:)
  from Suc.hyps(2) have "n = min 5 (length lines) - Suc i" by arith
  from Suc.hyps(1) [OF this] have ih: "skipLoop lines (Suc i) (Suc i) =
      Inr (Suc i + length (takeWhile (\<lambda>l. startsWithHash (trim l) \<or> trim l = [])
        (drop (Suc i) (take 5 lines))))" .
  show ?case
    by (subst skipLoop.simps) (use lt ih in \<open>simp add: at_def Let_def d\<close>)
qed

lemma skipLoop_start:
  "skipLoop lines 0 0 =
     Inr (length (takeWhile (\<lambda>l. startsWithHash (trim l) \<or> trim l = []) (take 5 lines)))"
  using skipLoop_takeWhile [of lines 0] by simp

lemma accLoop_total: "\<exists>r. accLoop lines i d = Inr r"
proof (induction lines i d rule: accLoop.induct)
  case (1 lines i description)
  show ?case
    by (subst accLoop.simps) (use 1 in \<open>auto simp: at_def Let_def split: option.splits\<close>)
qed

lemma extractDescription_total: "\<exists>d. extractDescription content = Inr d"
proof -
  obtain r where "accLoop (split 0x0A content)
      (length (takeWhile (\<lambda>l. startsWithHash (trim l) \<or> trim l = []) (take 5 (split 0x0A content)))) [] = Inr r"
    using accLoop_total by blast
  then show ?thesis
    by (simp add: extractDescription_def Let_def skipLoop_start)
qed

subsection \<open>The title\<close>

text \<open>
  C1 (as the code has it). The title can be empty: a heading whose text is only whitespace
  trims to nothing, and an empty fallback name formats to nothing. Whenever the fallback
  name is not empty and the last unit of the content that is not whitespace is not \<^verbatim>\<open>#\<close>,
  \<^verbatim>\<open>parseReadme\<close> returns a record whose title is not empty. (\<^verbatim>\<open>toUpperCase\<close> never
  maps a one-unit string to the empty string.)
\<close>

theorem title_nonempty:
  assumes "repoName \<noteq> []" and "\<forall>c. up [c] \<noteq> []"
    and "trim content = [] \<or> last (trim content) \<noteq> 0x23"
  shows "\<exists>r. parseReadme up content repoName = Inr r \<and> title r \<noteq> []"
proof -
  have t: "extractTitle up content repoName \<noteq> []"
  proof (cases "h1Match content")
    case (Some g)
    with h1Match_blank [OF Some] assms(3) show ?thesis
      by (auto simp: extractTitle_def)
  next
    case None
    show ?thesis
    proof (cases "h2Match content")
      case (Some g)
      with h2Match_blank [OF Some] assms(3) None show ?thesis
        by (auto simp: extractTitle_def)
    next
      case n2: None
      from formatRepoName_nonempty [OF assms(1,2)] None n2 show ?thesis
        by (auto simp: extractTitle_def Let_def split: list.splits)
    qed
  qed
  obtain d where "extractDescription content = Inr d"
    using extractDescription_total by blast
  with t show ?thesis by (simp add: parseReadme_def Let_def)
qed

theorem title_nonempty_witness:
  "js ''shell-c'' \<noteq> [] \<and> (\<forall>c. toUpperCaseAscii [c] \<noteq> []) \<and>
   (trim (js ''Notes on C'') = [] \<or> last (trim (js ''Notes on C'')) \<noteq> 0x23) \<and>
   (\<exists>r. parseReadme toUpperCaseAscii (js ''Notes on C'') (js ''shell-c'') = Inr r \<and> title r \<noteq> [])"
proof -
  have h1: "js ''shell-c'' \<noteq> []" by (simp add: js_def)
  have h2: "\<forall>c. toUpperCaseAscii [c] \<noteq> []" by (simp add: toUpperCaseAscii_def)
  have h3: "trim (js ''Notes on C'') = [] \<or> last (trim (js ''Notes on C'')) \<noteq> 0x23"
    by code_simp
  from title_nonempty [OF h1 h2 h3] h1 h2 h3 show ?thesis by blast
qed

text \<open>
  C1 as stated fails: the content \<^verbatim>\<open>"#  "\<close> (a hash and two spaces) matches the level-1
  pattern with a captured space, which trims to the empty title; and empty content with an
  empty fallback name gives the empty title too.
\<close>

theorem title_empty_counterexample:
  "parseReadme toUpperCaseAscii (js ''#  '') (js ''shell-c'') = Inr \<lparr>title = [], description = None\<rparr> \<and>
   parseReadme toUpperCaseAscii [] [] = Inr \<lparr>title = [], description = None\<rparr>"
  by code_simp

subsection \<open>Rules 3 and 4 of the title\<close>

lemma filter_find:
  "(case filter P xs of [] \<Rightarrow> a | x # ys \<Rightarrow> f x) = (case find P xs of None \<Rightarrow> a | Some x \<Rightarrow> f x)"
  by (induction xs) auto

lemma extractTitle_no_heading:
  assumes "h1Match content = None" and "h2Match content = None"
  shows "extractTitle up content repoName =
     (case find (\<lambda>l. trim l \<noteq> []) (split 0x0A content) of
        None \<Rightarrow> formatRepoName up repoName
      | Some l \<Rightarrow>
         if length (trim l) < 100 \<and> \<not> startsWithMarker (trim l) then trim l
         else formatRepoName up repoName)"
proof -
  have "extractTitle up content repoName =
     (case filter (\<lambda>l. trim l \<noteq> []) (split 0x0A content) of
        [] \<Rightarrow> formatRepoName up repoName
      | l # ls \<Rightarrow>
         if length (trim l) < 100 \<and> \<not> startsWithMarker (trim l) then trim l
         else formatRepoName up repoName)"
    using assms
    by (auto simp: extractTitle_def Let_def split: list.splits dest: filter_eq_ConsD)
  then show ?thesis by (simp only: filter_find)
qed

lemma split_shell_c: "split 0x2D (js ''shell-c'') = [js ''shell'', js ''c'']"
  by code_simp

lemma split_unix: "split 0x2D (js ''unix-shell-basics'') = [js ''unix'', js ''shell'', js ''basics'']"
  by code_simp

lemma no_heading_Nil: "h1Match [] = None \<and> h2Match [] = None"
  by (simp add: h1Match_def h2Match_def)

lemma format_shell_c: "up (js ''s'') = js ''S'' \<Longrightarrow> up (js ''c'') = js ''C'' \<Longrightarrow> formatRepoName up (js ''shell-c'') = js ''Shell C''"
  by (simp add: formatRepoName_def split_shell_c capitalize_def) (simp add: js_def)

lemma format_unix_shell_basics: "up (js ''u'') = js ''U'' \<Longrightarrow> up (js ''s'') = js ''S'' \<Longrightarrow> up (js ''b'') = js ''B'' \<Longrightarrow> formatRepoName up (js ''unix-shell-basics'') = js ''Unix Shell Basics''"
  by (simp add: formatRepoName_def split_unix capitalize_def) (simp add: js_def)

lemma simple_guide: "h1Match (js ''A Simple Guide'') = None \<and> h2Match (js ''A Simple Guide'') = None
  \<and> find (\<lambda>l. trim l \<noteq> []) (split 0x0A (js ''A Simple Guide'')) = Some (js ''A Simple Guide'')
  \<and> trim (js ''A Simple Guide'') = js ''A Simple Guide''
  \<and> \<not> startsWithMarker (js ''A Simple Guide'') \<and> length (js ''A Simple Guide'') = 14"
  by code_simp

text \<open>
  C3. When neither heading pattern matches and rule 3 does not apply (no line that is not
  blank, or the first such line is 100 units or longer or starts with a marker), the title
  is the fallback name split on \<^verbatim>\<open>-\<close>, each segment with its first unit upper-cased and
  the rest unchanged, joined by single spaces. Empty content reaches this rule, and with
  the upper-casing of \<^verbatim>\<open>s\<close>, \<^verbatim>\<open>c\<close>, \<^verbatim>\<open>u\<close>, \<^verbatim>\<open>b\<close> the names \<^verbatim>\<open>shell-c\<close> and
  \<^verbatim>\<open>unix-shell-basics\<close> become \<^verbatim>\<open>Shell C\<close> and \<^verbatim>\<open>Unix Shell Basics\<close>.
\<close>

theorem fallback_title:
  assumes "h1Match content = None" and "h2Match content = None"
    and "case find (\<lambda>l. trim l \<noteq> []) (split 0x0A content) of
           None \<Rightarrow> True
         | Some l \<Rightarrow> \<not> (length (trim l) < 100 \<and> \<not> startsWithMarker (trim l))"
  shows "extractTitle up content repoName =
           join [0x20] (map (\<lambda>w. up (take 1 w) @ drop 1 w) (split 0x2D repoName)) \<and>
         extractTitle up [] repoName =
           join [0x20] (map (\<lambda>w. up (take 1 w) @ drop 1 w) (split 0x2D repoName)) \<and>
         (up (js ''s'') = js ''S'' \<and> up (js ''c'') = js ''C'' \<longrightarrow>
            extractTitle up [] (js ''shell-c'') = js ''Shell C'') \<and>
         (up (js ''u'') = js ''U'' \<and> up (js ''s'') = js ''S'' \<and> up (js ''b'') = js ''B'' \<longrightarrow>
            formatRepoName up (js ''unix-shell-basics'') = js ''Unix Shell Basics'')"
proof -
  have fmt: "formatRepoName up r =
      join [0x20] (map (\<lambda>w. up (take 1 w) @ drop 1 w) (split 0x2D r))" for r
    by (simp add: formatRepoName_def capitalize_def [abs_def])
  have empty: "extractTitle up [] r = formatRepoName up r" for r
    using extractTitle_no_heading [of "[]" up r] no_heading_Nil
    by (simp add: trim_def)
  have "extractTitle up content repoName = formatRepoName up repoName"
    using assms(3) by (auto simp: extractTitle_no_heading [OF assms(1,2)] split: option.splits)
  with fmt empty format_shell_c [of up] format_unix_shell_basics [of up] show ?thesis by simp
qed

theorem fallback_title_witness:
  "h1Match (js ''- first item'') = None \<and> h2Match (js ''- first item'') = None \<and>
   find (\<lambda>l. trim l \<noteq> []) (split 0x0A (js ''- first item'')) = Some (js ''- first item'') \<and>
   startsWithMarker (trim (js ''- first item'')) \<and>
   toUpperCaseAscii (js ''s'') = js ''S'' \<and> toUpperCaseAscii (js ''c'') = js ''C'' \<and>
   toUpperCaseAscii (js ''u'') = js ''U'' \<and> toUpperCaseAscii (js ''b'') = js ''B'' \<and>
   extractTitle toUpperCaseAscii (js ''- first item'') (js ''shell-c'') = js ''Shell C'' \<and>
   extractTitle toUpperCaseAscii [] (js ''shell-c'') = js ''Shell C'' \<and>
   formatRepoName toUpperCaseAscii (js ''unix-shell-basics'') = js ''Unix Shell Basics''"
proof -
  have h1: "h1Match (js ''- first item'') = None" by code_simp
  have h2: "h2Match (js ''- first item'') = None" by code_simp
  have f: "find (\<lambda>l. trim l \<noteq> []) (split 0x0A (js ''- first item'')) = Some (js ''- first item'')"
    by code_simp
  have m: "startsWithMarker (trim (js ''- first item''))" by code_simp
  have h3: "case find (\<lambda>l. trim l \<noteq> []) (split 0x0A (js ''- first item'')) of
           None \<Rightarrow> True
         | Some l \<Rightarrow> \<not> (length (trim l) < 100 \<and> \<not> startsWithMarker (trim l))"
    using f m by simp
  have u: "toUpperCaseAscii (js ''s'') = js ''S''" "toUpperCaseAscii (js ''c'') = js ''C''"
    "toUpperCaseAscii (js ''u'') = js ''U''" "toUpperCaseAscii (js ''b'') = js ''B''"
    by code_simp+
  have s: "join [0x20] (map (\<lambda>w. toUpperCaseAscii (take 1 w) @ drop 1 w) (split 0x2D (js ''shell-c''))) = js ''Shell C''"
    by code_simp
  from fallback_title [OF h1 h2 h3, of toUpperCaseAscii "js ''shell-c''"] h1 h2 f m u s
  show ?thesis by simp
qed

text \<open>
  C4. When neither heading pattern matches, the title is the first line (split at line
  feeds) that is not blank, trimmed, provided it is shorter than 100 units and does not
  start with one of \<^verbatim>\<open># * - [ ]\<close> or a backtick; otherwise, and when every line is blank,
  it is the formatted fallback name: the marker is never stripped for a second try.
  The content \<^verbatim>\<open>A Simple Guide\<close> has the title \<^verbatim>\<open>A Simple Guide\<close>.
\<close>

theorem first_line_title:
  assumes "h1Match content = None" and "h2Match content = None"
  shows "extractTitle up content repoName =
           (case find (\<lambda>l. trim l \<noteq> []) (split 0x0A content) of
              None \<Rightarrow> formatRepoName up repoName
            | Some l \<Rightarrow>
               if 0 < length (trim l) \<and> length (trim l) < 100 \<and> \<not> startsWithMarker (trim l)
               then trim l
               else formatRepoName up repoName) \<and>
         extractTitle up (js ''A Simple Guide'') repoName = js ''A Simple Guide''"
proof -
  have g: "extractTitle up (js ''A Simple Guide'') repoName = js ''A Simple Guide''"
    using simple_guide by (simp add: extractTitle_no_heading)
  have "find (\<lambda>l. trim l \<noteq> []) (split 0x0A content) = Some l \<Longrightarrow> 0 < length (trim l)" for l
    by (auto simp: find_Some_iff)
  with g show ?thesis
    by (simp add: extractTitle_no_heading [OF assms] split: option.splits)
qed

theorem first_line_title_witness:
  "h1Match (js ''*not a title*'') = None \<and> h2Match (js ''*not a title*'') = None \<and>
   extractTitle toUpperCaseAscii (js ''*not a title*'') (js ''shell-c'') = js ''Shell C'' \<and>
   extractTitle toUpperCaseAscii (js ''A Simple Guide'') (js ''shell-c'') = js ''A Simple Guide''"
proof -
  have h1: "h1Match (js ''*not a title*'') = None" by code_simp
  have h2: "h2Match (js ''*not a title*'') = None" by code_simp
  have r: "(case find (\<lambda>l. trim l \<noteq> []) (split 0x0A (js ''*not a title*'')) of
              None \<Rightarrow> formatRepoName toUpperCaseAscii (js ''shell-c'')
            | Some l \<Rightarrow>
               if 0 < length (trim l) \<and> length (trim l) < 100 \<and> \<not> startsWithMarker (trim l)
               then trim l
               else formatRepoName toUpperCaseAscii (js ''shell-c'')) = js ''Shell C''"
    by code_simp
  from first_line_title [OF h1 h2, of toUpperCaseAscii "js ''shell-c''"] h1 h2 r
  show ?thesis by simp
qed

subsection \<open>Start index and accumulation\<close>

text \<open>One round of the second iteration, by the kind of line under the index.\<close>

lemma accLoop_heading:
  "i < length lines \<Longrightarrow> startsWithHash (trim (lines ! i)) \<Longrightarrow> accLoop lines i d = Inr d"
  by (subst accLoop.simps) (simp add: at_def Let_def)

lemma accLoop_blank_first:
  "i < length lines \<Longrightarrow> trim (lines ! i) = [] \<Longrightarrow> accLoop lines i [] = accLoop lines (i + 1) []"
  by (subst accLoop.simps) (simp add: at_def Let_def)

lemma accLoop_blank_after:
  "i < length lines \<Longrightarrow> trim (lines ! i) = [] \<Longrightarrow> d \<noteq> [] \<Longrightarrow> accLoop lines i d = Inr d"
  by (subst accLoop.simps) (simp add: at_def Let_def)

lemma accLoop_append:
  assumes "i < length lines" and "trim (lines ! i) \<noteq> []" and "\<not> startsWithHash (trim (lines ! i))"
  shows "accLoop lines i d =
     (let d' = d @ (if d \<noteq> [] then [0x20] else []) @ trim (lines ! i) in
      if length d' > 150 then
        (case sentenceEnd d' of Some k \<Rightarrow> Inr (trim (take (k + 1) d')) | None \<Rightarrow> Inr d')
      else accLoop lines (i + 1) d')"
  by (subst accLoop.simps) (use assms in \<open>simp add: at_def Let_def\<close>)

lemma accLoop_end: "\<not> i < length lines \<Longrightarrow> accLoop lines i d = Inr d"
  by (subst accLoop.simps) simp

lemma accLoop_skip_blanks:
  "\<forall>b\<in>set blanks. trim b = [] \<Longrightarrow>
   accLoop (pre @ blanks @ rest) (length pre) [] =
   accLoop (pre @ blanks @ rest) (length pre + length blanks) []"
proof (induction blanks arbitrary: pre)
  case Nil
  then show ?case by simp
next
  case (Cons b bs)
  have "accLoop (pre @ (b # bs) @ rest) (length pre) [] =
        accLoop (pre @ (b # bs) @ rest) (length pre + 1) []"
    using Cons.prems by (intro accLoop_blank_first) simp_all
  also have "\<dots> = accLoop ((pre @ [b]) @ bs @ rest) (length (pre @ [b])) []" by simp
  also have "\<dots> = accLoop ((pre @ [b]) @ bs @ rest) (length (pre @ [b]) + length bs) []"
    using Cons.prems by (intro Cons.IH) simp
  finally show ?case by simp
qed

text \<open>The running description after the lines \<open>para\<close> have been appended to \<open>d\<close>.\<close>

lemma join_Cons: "join sep (x # xs) = (if xs = [] then x else x @ sep @ join sep xs)"
  by (cases xs) simp_all

lemma accLoop_paragraph:
  assumes "\<forall>l\<in>set para. trim l \<noteq> [] \<and> \<not> startsWithHash (trim l)"
    and "length (join [0x20] (d # map trim para)) \<le> 150" and "d \<noteq> []"
  shows "accLoop (pre @ para @ rest) (length pre) d =
         accLoop (pre @ para @ rest) (length pre + length para) (join [0x20] (d # map trim para))"
  using assms
proof (induction para arbitrary: pre d)
  case Nil
  then show ?case by simp
next
  case (Cons l ls)
  let ?d' = "d @ [0x20] @ trim l"
  have len: "length (join [0x20] (d # map trim (l # ls))) = length (join [0x20] (?d' # map trim ls))"
    by (simp add: join_Cons)
  have j: "join [0x20] (d # map trim (l # ls)) = join [0x20] (?d' # map trim ls)"
    by (simp add: join_Cons)
  have "length ?d' \<le> length (join [0x20] (?d' # map trim ls))"
    by (simp add: join_Cons)
  with len Cons.prems(2) have short: "\<not> length ?d' > 150" by simp
  have "accLoop (pre @ (l # ls) @ rest) (length pre) d =
        accLoop (pre @ (l # ls) @ rest) (length pre + 1) ?d'"
    using Cons.prems(1,3) short
    by (subst accLoop_append) (simp_all add: Let_def)
  also have "\<dots> = accLoop ((pre @ [l]) @ ls @ rest) (length (pre @ [l])) ?d'" by simp
  also have "\<dots> = accLoop ((pre @ [l]) @ ls @ rest) (length (pre @ [l]) + length ls)
                      (join [0x20] (?d' # map trim ls))"
    using Cons.prems len by (intro Cons.IH) simp_all
  finally show ?case by (simp add: join_Cons)
qed

lemma accLoop_paragraph_first:
  assumes "\<forall>l\<in>set para. trim l \<noteq> [] \<and> \<not> startsWithHash (trim l)"
    and "length (join [0x20] (map trim para)) \<le> 150"
  shows "accLoop (pre @ para @ rest) (length pre) [] =
         accLoop (pre @ para @ rest) (length pre + length para) (join [0x20] (map trim para))"
proof (cases para)
  case Nil
  then show ?thesis by simp
next
  case (Cons l ls)
  have "length (trim l) \<le> length (join [0x20] (map trim (l # ls)))"
    by (simp add: join_Cons)
  with assms(2) Cons have short: "\<not> length (trim l) > 150" by simp
  have "accLoop (pre @ (l # ls) @ rest) (length pre) [] =
        accLoop (pre @ (l # ls) @ rest) (length pre + 1) (trim l)"
    using assms(1) Cons short
    by (subst accLoop_append) (simp_all add: Let_def)
  also have "\<dots> = accLoop ((pre @ [l]) @ ls @ rest) (length (pre @ [l])) (trim l)" by simp
  also have "\<dots> = accLoop ((pre @ [l]) @ ls @ rest) (length (pre @ [l]) + length ls)
                      (join [0x20] (trim l # map trim ls))"
    using assms Cons by (intro accLoop_paragraph) simp_all
  finally show ?thesis using Cons by (simp add: join_Cons)
qed

text \<open>
  C5. The start index of the description is the length of the longest prefix of the first
  five lines whose lines are all blank or (after trimming) start with \<^verbatim>\<open>#\<close>: the scan stops
  at the first line that is neither, whatever follows it inside the window. For the content
  \<^verbatim>\<open># Title\<close>, a blank line, \<^verbatim>\<open>This is the description.\<close> the description is the third line.
\<close>

theorem prefix_scan:
  "skipLoop lines 0 0 =
     Inr (length (takeWhile (\<lambda>l. trim l = [] \<or> startsWithHash (trim l)) (take 5 lines))) \<and>
   ((\<forall>p\<in>set pre. trim p = [] \<or> startsWithHash (trim p)) \<and> length pre < 5 \<and>
    trim l \<noteq> [] \<and> \<not> startsWithHash (trim l) \<longrightarrow>
      skipLoop (pre @ l # rest) 0 0 = Inr (length pre)) \<and>
   extractDescription (js ''# Title'' @ [0x0A, 0x0A] @ js ''This is the description.'') =
     Inr (Some (js ''This is the description.''))"
proof -
  have eq: "(\<lambda>l. startsWithHash (trim l) \<or> trim l = []) = (\<lambda>l. trim l = [] \<or> startsWithHash (trim l))"
    by auto
  have a: "skipLoop ls 0 0 =
     Inr (length (takeWhile (\<lambda>l. trim l = [] \<or> startsWithHash (trim l)) (take 5 ls)))" for ls
    using skipLoop_start [of ls] by (simp only: eq)
  have b: "skipLoop (pre @ l # rest) 0 0 = Inr (length pre)"
    if "\<forall>p\<in>set pre. trim p = [] \<or> startsWithHash (trim p)" "length pre < 5"
       "trim l \<noteq> []" "\<not> startsWithHash (trim l)"
  proof -
    from that(2) have "take 5 (pre @ l # rest) = pre @ l # take (4 - length pre) rest"
      by (simp add: take_Cons')
    moreover from that(1,3,4)
    have "takeWhile (\<lambda>l. trim l = [] \<or> startsWithHash (trim l)) (pre @ l # take (4 - length pre) rest) = pre"
      by (simp add: takeWhile_append2)
    ultimately show ?thesis by (simp only: a)
  qed
  have c: "extractDescription (js ''# Title'' @ [0x0A, 0x0A] @ js ''This is the description.'') =
     Inr (Some (js ''This is the description.''))"
    by code_simp
  from a b c show ?thesis by blast
qed

theorem prefix_scan_witness:
  "startsWithHash (trim (js ''# Title'')) \<and> trim [] = [] \<and>
   length [js ''# Title'', []] < 5 \<and>
   trim (js ''Some text.'') \<noteq> [] \<and> \<not> startsWithHash (trim (js ''Some text.'')) \<and>
   skipLoop ([js ''# Title'', []] @ js ''Some text.'' # [js ''## Later'', []]) 0 0 = Inr 2"
proof -
  have h: "(\<forall>p\<in>set [js ''# Title'', []]. trim p = [] \<or> startsWithHash (trim p)) \<and>
      length [js ''# Title'', []] < 5 \<and>
      trim (js ''Some text.'') \<noteq> [] \<and> \<not> startsWithHash (trim (js ''Some text.''))"
    by code_simp
  have e: "startsWithHash (trim (js ''# Title'')) \<and> trim [] = []" by code_simp
  from prefix_scan [of _ "[js ''# Title'', []]" "js ''Some text.''" "[js ''## Later'', []]"] h e
  show ?thesis by simp
qed

text \<open>
  C6. In the second iteration, at a line inside the array: a heading line ends it with
  the description as it stands; a blank line is passed over while the description is
  empty and ends the iteration once it is not; a line that is neither is appended, after
  a single space unless the description is empty, and the iteration goes on while the
  result has at most 150 units. So blank lines, then a paragraph of at most 150 units,
  then a blank or heading line give the paragraph's trimmed lines joined by single spaces.
\<close>

theorem accumulation_rules:
  assumes "i < length lines"
  shows "(startsWithHash (trim (lines ! i)) \<longrightarrow> accLoop lines i d = Inr d) \<and>
         (trim (lines ! i) = [] \<longrightarrow> accLoop lines i [] = accLoop lines (i + 1) []) \<and>
         (trim (lines ! i) = [] \<and> d \<noteq> [] \<longrightarrow> accLoop lines i d = Inr d) \<and>
         (trim (lines ! i) \<noteq> [] \<and> \<not> startsWithHash (trim (lines ! i)) \<and>
          length (trim (lines ! i)) \<le> 150 \<longrightarrow>
            accLoop lines i [] = accLoop lines (i + 1) (trim (lines ! i))) \<and>
         (trim (lines ! i) \<noteq> [] \<and> \<not> startsWithHash (trim (lines ! i)) \<and> d \<noteq> [] \<and>
          length (d @ [0x20] @ trim (lines ! i)) \<le> 150 \<longrightarrow>
            accLoop lines i d = accLoop lines (i + 1) (d @ [0x20] @ trim (lines ! i))) \<and>
         ((\<forall>b\<in>set blanks. trim b = []) \<and> para \<noteq> [] \<and>
          (\<forall>l\<in>set para. trim l \<noteq> [] \<and> \<not> startsWithHash (trim l)) \<and>
          length (join [0x20] (map trim para)) \<le> 150 \<and>
          (trim stop = [] \<or> startsWithHash (trim stop)) \<longrightarrow>
            accLoop (blanks @ para @ stop # rest) 0 [] = Inr (join [0x20] (map trim para)))"
proof -
  have p: "accLoop (blanks @ para @ stop # rest) 0 [] = Inr (join [0x20] (map trim para))"
    if b: "\<forall>b\<in>set blanks. trim b = []" and ne: "para \<noteq> []"
      and pa: "\<forall>l\<in>set para. trim l \<noteq> [] \<and> \<not> startsWithHash (trim l)"
      and len: "length (join [0x20] (map trim para)) \<le> 150"
      and st: "trim stop = [] \<or> startsWithHash (trim stop)"
  proof -
    let ?lines = "blanks @ para @ stop # rest"
    let ?d = "join [0x20] (map trim para)"
    from ne pa have dne: "?d \<noteq> []" by (cases para) (auto simp: join_Cons)
    have "accLoop ?lines 0 [] = accLoop ([] @ blanks @ para @ stop # rest) (length ([] :: jsstring list)) []"
      by simp
    also have "\<dots> = accLoop ([] @ blanks @ para @ stop # rest) (length ([] :: jsstring list) + length blanks) []"
      using b by (rule accLoop_skip_blanks)
    also have "\<dots> = accLoop (blanks @ para @ stop # rest) (length blanks) []" by simp
    also have "\<dots> = accLoop (blanks @ para @ stop # rest) (length blanks + length para) ?d"
      using pa len by (rule accLoop_paragraph_first)
    also have "\<dots> = Inr ?d"
    proof -
      have i: "length blanks + length para < length ?lines" by simp
      have n: "?lines ! (length blanks + length para) = stop"
        by (simp add: nth_append)
      from st show ?thesis
      proof
        assume "trim stop = []"
        with i n dne show ?thesis by (intro accLoop_blank_after) simp_all
      next
        assume "startsWithHash (trim stop)"
        with i n show ?thesis by (intro accLoop_heading) simp_all
      qed
    qed
    finally show ?thesis .
  qed
  have a1: "trim (lines ! i) \<noteq> [] \<and> \<not> startsWithHash (trim (lines ! i)) \<and>
          length (trim (lines ! i)) \<le> 150 \<longrightarrow>
            accLoop lines i [] = accLoop lines (i + 1) (trim (lines ! i))"
    using assms by (auto simp: accLoop_append Let_def)
  have a2: "trim (lines ! i) \<noteq> [] \<and> \<not> startsWithHash (trim (lines ! i)) \<and> d \<noteq> [] \<and>
          length (d @ [0x20] @ trim (lines ! i)) \<le> 150 \<longrightarrow>
            accLoop lines i d = accLoop lines (i + 1) (d @ [0x20] @ trim (lines ! i))"
    using assms by (auto simp: accLoop_append Let_def)
  from assms accLoop_heading accLoop_blank_first accLoop_blank_after a1 a2 p
  show ?thesis by blast
qed

theorem accumulation_rules_witness:
  "accLoop [js ''# Title'', [], js ''  First line '', js ''second line.'', [], js ''Next paragraph.'']
     1 [] = Inr (js ''First line second line.'') \<and>
   accLoop [js ''First line'', js '' ## Usage'', js ''more''] 1 (js ''First line'') = Inr (js ''First line'') \<and>
   accLoop [js ''First line'', [], js ''more''] 1 (js ''First line'') = Inr (js ''First line'') \<and>
   accLoop [js ''a'', js ''b''] 0 [] = Inr (js ''a b'') \<and>
   accLoop [js ''a'', js ''b''] 1 (js ''a'') = Inr (js ''a b'') \<and>
   accLoop [[], js ''a'', js ''b'', []] 0 [] = Inr (js ''a b'')"
proof -
  let ?lines = "[js ''# Title'', [], js ''  First line '', js ''second line.'', [], js ''Next paragraph.'']"
  have i: "1 < length ?lines" by simp
  have l1: "trim (?lines ! 1) = []" by code_simp
  have r: "accLoop ?lines (1 + 1) [] = Inr (js ''First line second line.'')" by code_simp
  from accumulation_rules [OF i, of "[]" "[]" "[]" "[]" "[]"] l1 r
  have c1: "accLoop ?lines 1 [] = Inr (js ''First line second line.'')" by simp
  let ?l2 = "[js ''First line'', js '' ## Usage'', js ''more'']"
  have i2: "1 < length ?l2" by simp
  have h2: "startsWithHash (trim (?l2 ! 1))" by code_simp
  from accumulation_rules [OF i2, of "js ''First line''" "[]" "[]" "[]" "[]"] h2
  have c2: "accLoop ?l2 1 (js ''First line'') = Inr (js ''First line'')" by simp
  let ?l3 = "[js ''First line'', [], js ''more'']"
  have i3: "1 < length ?l3" by simp
  have h3: "trim (?l3 ! 1) = [] \<and> js ''First line'' \<noteq> []" by code_simp
  from accumulation_rules [OF i3, of "js ''First line''" "[]" "[]" "[]" "[]"] h3
  have c3: "accLoop ?l3 1 (js ''First line'') = Inr (js ''First line'')" by simp
  let ?l4 = "[js ''a'', js ''b'']"
  have i4: "0 < length ?l4" by simp
  have h4: "trim (?l4 ! 0) \<noteq> [] \<and> \<not> startsWithHash (trim (?l4 ! 0)) \<and> length (trim (?l4 ! 0)) \<le> 150"
    by code_simp
  have r4: "accLoop ?l4 (0 + 1) (trim (?l4 ! 0)) = Inr (js ''a b'')" by code_simp
  from accumulation_rules [OF i4, of "[]" "[]" "[]" "[]" "[]"] h4 r4
  have c4: "accLoop ?l4 0 [] = Inr (js ''a b'')" by simp
  have i5: "1 < length ?l4" by simp
  have h5: "trim (?l4 ! 1) \<noteq> [] \<and> \<not> startsWithHash (trim (?l4 ! 1)) \<and> js ''a'' \<noteq> [] \<and>
      length (js ''a'' @ [0x20] @ trim (?l4 ! 1)) \<le> 150"
    by code_simp
  have r5: "accLoop ?l4 (1 + 1) (js ''a'' @ [0x20] @ trim (?l4 ! 1)) = Inr (js ''a b'')" by code_simp
  from accumulation_rules [OF i5, of "js ''a''" "[]" "[]" "[]" "[]"] h5 r5
  have c5: "accLoop ?l4 1 (js ''a'') = Inr (js ''a b'')" by simp
  have h6: "(\<forall>b\<in>set [[]]. trim b = []) \<and> [js ''a'', js ''b''] \<noteq> [] \<and>
          (\<forall>l\<in>set [js ''a'', js ''b'']. trim l \<noteq> [] \<and> \<not> startsWithHash (trim l)) \<and>
          length (join [0x20] (map trim [js ''a'', js ''b''])) \<le> 150 \<and>
          (trim [] = [] \<or> startsWithHash (trim []))"
    by code_simp
  have j: "join [0x20] (map trim [js ''a'', js ''b'']) = js ''a b''" by code_simp
  from accumulation_rules [OF i2, of "[]" "[[]]" "[js ''a'', js ''b'']" "[]" "[]"] h6 j
  have c6: "accLoop [[], js ''a'', js ''b'', []] 0 [] = Inr (js ''a b'')" by simp
  from c1 c2 c3 c4 c5 c6 show ?thesis by simp
qed

subsection \<open>The threshold of 150 units\<close>

lemma sentenceEnd_Some_iff:
  "sentenceEnd s = Some k \<longleftrightarrow>
     k + 1 < length s \<and> isSentencePunct (s ! k) \<and> isSpace (s ! (k + 1)) \<and>
     (\<forall>j<k. \<not> (isSentencePunct (s ! j) \<and> isSpace (s ! (j + 1))))"
proof (induction s arbitrary: k rule: sentenceEnd.induct)
  case (1 c d s)
  show ?case
  proof (cases "isSentencePunct c \<and> isSpace d")
    case True
    then show ?thesis by (cases k) auto
  next
    case False
    show ?thesis
    proof (cases k)
      case 0
      with False show ?thesis by auto
    next
      case (Suc k')
      have "(\<forall>j<Suc k'. \<not> (isSentencePunct ((c # d # s) ! j) \<and> isSpace ((c # d # s) ! (j + 1)))) \<longleftrightarrow>
            (\<forall>j<k'. \<not> (isSentencePunct ((d # s) ! j) \<and> isSpace ((d # s) ! (j + 1))))"
        using False by (auto simp: less_Suc_eq_0_disj)
      with Suc False "1.IH" [of k'] show ?thesis by auto
    qed
  qed
qed simp_all

lemma sentenceEnd_None_iff:
  "sentenceEnd s = None \<longleftrightarrow>
     (\<forall>j. j + 1 < length s \<longrightarrow> \<not> (isSentencePunct (s ! j) \<and> isSpace (s ! (j + 1))))"
proof
  assume n: "sentenceEnd s = None"
  show "\<forall>j. j + 1 < length s \<longrightarrow> \<not> (isSentencePunct (s ! j) \<and> isSpace (s ! (j + 1)))"
  proof (intro allI impI notI)
    fix j assume j: "j + 1 < length s" and b: "isSentencePunct (s ! j) \<and> isSpace (s ! (j + 1))"
    define P where "P = (\<lambda>j. j + 1 < length s \<and> isSentencePunct (s ! j) \<and> isSpace (s ! (j + 1)))"
    define k where "k = (LEAST j. P j)"
    from j b have "P j" by (simp add: P_def)
    then have "P k" unfolding k_def by (rule LeastI)
    have least: "\<not> P i" if "i < k" for i
      using that unfolding k_def by (rule not_less_Least)
    from \<open>P k\<close> have 1: "k + 1 < length s" "isSentencePunct (s ! k)" "isSpace (s ! (k + 1))"
      by (simp_all add: P_def)
    have 2: "\<forall>i<k. \<not> (isSentencePunct (s ! i) \<and> isSpace (s ! (i + 1)))"
    proof (intro allI impI)
      fix i assume ik: "i < k"
      with 1(1) have "i + 1 < length s" by simp
      with least [OF ik] show "\<not> (isSentencePunct (s ! i) \<and> isSpace (s ! (i + 1)))"
        by (simp add: P_def)
    qed
    from 1 2 have "sentenceEnd s = Some k"
      by (simp only: sentenceEnd_Some_iff simp_thms)
    with n show False by simp
  qed
next
  assume a: "\<forall>j. j + 1 < length s \<longrightarrow> \<not> (isSentencePunct (s ! j) \<and> isSpace (s ! (j + 1)))"
  show "sentenceEnd s = None"
  proof (cases "sentenceEnd s")
    case None
    then show ?thesis .
  next
    case (Some k)
    then have "k + 1 < length s" "isSentencePunct (s ! k)" "isSpace (s ! (k + 1))"
      by (simp_all only: sentenceEnd_Some_iff)
    with a show ?thesis by blast
  qed
qed

lemma punct_not_space: "isSentencePunct c \<Longrightarrow> \<not> isSpace c"
  by (auto simp: isSentencePunct_def isSpace_def isLineTerminator_def)

text \<open>No boundary inside what is cut, nor inside a part of it.\<close>

lemma sentenceEnd_sublist:
  assumes "sentenceEnd (a @ t @ b) = None"
  shows "sentenceEnd t = None"
  unfolding sentenceEnd_None_iff
proof (intro allI impI)
  fix j assume j: "j + 1 < length t"
  from assms have "length a + j + 1 < length (a @ t @ b) \<longrightarrow>
      \<not> (isSentencePunct ((a @ t @ b) ! (length a + j)) \<and> isSpace ((a @ t @ b) ! (length a + j + 1)))"
    unfolding sentenceEnd_None_iff by blast
  moreover from j have "(a @ t @ b) ! (length a + j) = t ! j"
    by (simp add: nth_append)
  moreover from j have "(a @ t @ b) ! (length a + j + 1) = t ! (j + 1)"
    by (simp add: nth_append)
  ultimately show "\<not> (isSentencePunct (t ! j) \<and> isSpace (t ! (j + 1)))"
    using j by simp
qed

lemma sentenceEnd_cut:
  assumes "sentenceEnd s = Some k"
  shows "sentenceEnd (take (k + 1) s) = None"
  unfolding sentenceEnd_None_iff
proof (intro allI impI)
  fix j assume "j + 1 < length (take (k + 1) s)"
  then have j: "j < k" by simp
  with assms have "\<not> (isSentencePunct (s ! j) \<and> isSpace (s ! (j + 1)))"
    by (simp add: sentenceEnd_Some_iff)
  with j show "\<not> (isSentencePunct (take (k + 1) s ! j) \<and> isSpace (take (k + 1) s ! (j + 1)))"
    by simp
qed

lemma sentenceEnd_trim_cut:
  assumes "sentenceEnd s = Some k"
  shows "sentenceEnd (trim (take (k + 1) s)) = None"
proof -
  obtain a b where "take (k + 1) s = a @ trim (take (k + 1) s) @ b"
    using trim_decomp [of "take (k + 1) s"] by blast
  with sentenceEnd_cut [OF assms] show ?thesis
    by (metis sentenceEnd_sublist)
qed

lemma accLoop_bound:
  "accLoop lines i d = Inr r \<Longrightarrow> length d \<le> 150 \<Longrightarrow> length r \<le> 150 \<or> sentenceEnd r = None"
proof (induction lines i d rule: accLoop.induct)
  case (1 lines i description)
  show ?case
  proof (cases "i < length lines")
    case False
    with "1.prems" show ?thesis by (simp add: accLoop_end)
  next
    case True
    let ?line = "trim (lines ! i)"
    let ?d' = "description @ (if description \<noteq> [] then [0x20] else []) @ ?line"
    from True have at: "at lines i = Inr (lines ! i)" by (simp add: at_def)
    consider (heading) "startsWithHash ?line"
      | (skip) "\<not> startsWithHash ?line" "description = []" "?line = []"
      | (stop) "\<not> startsWithHash ?line" "description \<noteq> []" "?line = []"
      | (add) "\<not> startsWithHash ?line" "?line \<noteq> []"
      by blast
    then show ?thesis
    proof cases
      case heading
      with True "1.prems" show ?thesis by (simp add: accLoop_heading)
    next
      case skip
      with True have "accLoop lines i description = accLoop lines (i + 1) description"
        by (simp add: accLoop_blank_first)
      with "1.IH"(1) [OF True at refl] skip "1.prems" show ?thesis by simp
    next
      case stop
      with True "1.prems" show ?thesis by (simp add: accLoop_blank_after)
    next
      case add
      note step = accLoop_append [OF True add(2) add(1), of description]
      show ?thesis
      proof (cases "length ?d' > 150")
        case long: True
        show ?thesis
        proof (cases "sentenceEnd ?d'")
          case None
          with step long "1.prems"(1) show ?thesis by (simp add: Let_def)
        next
          case (Some k)
          with step long "1.prems"(1) have "r = trim (take (k + 1) ?d')"
            by (simp add: Let_def)
          with sentenceEnd_trim_cut [OF Some] show ?thesis by simp
        qed
      next
        case short: False
        with step have "accLoop lines i description = accLoop lines (i + 1) ?d'"
          by (simp add: Let_def)
        moreover have "length ?line > 0" using add(2) by simp
        moreover have "\<not> (length description = 0 \<and> length ?line = 0)" using add(2) by simp
        ultimately show ?thesis
          using "1.IH"(2) [OF True at refl add(1) _ _ refl] short "1.prems"
          by simp
      qed
    qed
  qed
qed

lemma runUntil_split: "runUntil x close s = Some (g, r) \<Longrightarrow> s = g @ close @ r \<and> g \<noteq> [] \<and> x \<notin> set g"
proof -
  assume a: "runUntil x close s = Some (g, r)"
  let ?g = "takeWhile (\<lambda>c. c \<noteq> x) s" and ?r = "dropWhile (\<lambda>c. c \<noteq> x) s"
  from a have g: "g = ?g" "g \<noteq> []" and p: "prefix close ?r" and r: "r = drop (length close) ?r"
    by (auto simp: runUntil_def Let_def split: if_splits)
  from p r have "?r = close @ r" by (auto simp: prefix_def)
  then have "?g @ close @ r = s" by (metis takeWhile_dropWhile_id)
  moreover have "x \<notin> set ?g" by (auto dest: set_takeWhileD)
  ultimately show ?thesis using g by simp
qed

lemma runUntil_length:
  assumes "runUntil x close s = Some (g, r)"
  shows "length s = length g + length close + length r"
proof -
  from runUntil_split [OF assms] have "length s = length (g @ close @ r)" by (simp only:)
  then show ?thesis by simp
qed

lemma matchAt_length: "matchAt k s = Some (g, r) \<Longrightarrow> length g + length r < length s"
proof (cases k)
  case Link
  assume "matchAt k s = Some (g, r)"
  with Link have m: "matchAt Link s = Some (g, r)" by simp
  then obtain c s1 where s: "s = c # s1" by (cases s) simp_all
  with m have c: "c = 0x5B" by (simp split: if_splits)
  from m s c obtain t s2 where r1: "runUntil 0x5D [0x5D, 0x28] s1 = Some (t, s2)"
    by (cases "runUntil 0x5D [0x5D, 0x28] s1") auto
  from m s c r1 obtain u s3 where r2: "runUntil 0x29 [0x29] s2 = Some (u, s3)"
    by (cases "runUntil 0x29 [0x29] s2") auto
  from m s c r1 r2 have "t = g" "s3 = r" by simp_all
  with runUntil_length [OF r1] runUntil_length [OF r2] s show ?thesis by simp
next
  case Bold
  assume "matchAt k s = Some (g, r)"
  with Bold have p: "prefix [0x2A, 0x2A] s"
    and r: "runUntil 0x2A [0x2A, 0x2A] (drop 2 s) = Some (g, r)"
    by (auto split: if_splits)
  from p obtain zs where zs: "s = [0x2A, 0x2A] @ zs" by (rule prefixE)
  with r have "runUntil 0x2A [0x2A, 0x2A] zs = Some (g, r)" by simp
  from runUntil_length [OF this] zs show ?thesis by simp
next
  case Italic
  assume "matchAt k s = Some (g, r)"
  with Italic have p: "prefix [0x2A] s" and r: "runUntil 0x2A [0x2A] (drop 1 s) = Some (g, r)"
    by (auto split: if_splits)
  from p obtain zs where zs: "s = [0x2A] @ zs" by (rule prefixE)
  with r have "runUntil 0x2A [0x2A] zs = Some (g, r)" by simp
  from runUntil_length [OF this] zs show ?thesis by simp
next
  case Code
  assume "matchAt k s = Some (g, r)"
  with Code have p: "prefix [0x60] s" and r: "runUntil 0x60 [0x60] (drop 1 s) = Some (g, r)"
    by (auto split: if_splits)
  from p obtain zs where zs: "s = [0x60] @ zs" by (rule prefixE)
  with r have "runUntil 0x60 [0x60] zs = Some (g, r)" by simp
  from runUntil_length [OF this] zs show ?thesis by simp
qed

lemma replaceAll_length: "length (replaceAll k s) \<le> length s"
proof (induction k s rule: replaceAll.induct)
  case (1 k)
  then show ?case by simp
next
  case (2 k c s)
  show ?case
  proof (cases "matchAt k (c # s)")
    case None
    with 2 show ?thesis by simp
  next
    case (Some gr)
    obtain g r where gr: "gr = (g, r)" by (cases gr)
    from matchAt_length [of k "c # s" g r] Some gr
    have "length g + length r < length (c # s)" by simp
    moreover from "2.IH"(2) [OF Some gr [symmetric]] have "length (replaceAll k r) \<le> length r" .
    ultimately show ?thesis using Some gr by simp
  qed
qed

lemma trim_length: "length (trim s) \<le> length s"
proof -
  have "length (trim s) \<le> length (dropWhile isSpace s)"
    unfolding trim_def length_rev by (metis length_dropWhile_le length_rev)
  also have "\<dots> \<le> length s" by (rule length_dropWhile_le)
  finally show ?thesis .
qed

lemma cleanDescription_length: "length (cleanDescription d) \<le> length d"
proof -
  have "length (cleanDescription d) \<le>
        length (replaceAll Code (replaceAll Italic (replaceAll Bold (replaceAll Link d))))"
    unfolding cleanDescription_def by (rule trim_length)
  also have "\<dots> \<le> length (replaceAll Italic (replaceAll Bold (replaceAll Link d)))"
    by (rule replaceAll_length)
  also have "\<dots> \<le> length (replaceAll Bold (replaceAll Link d))" by (rule replaceAll_length)
  also have "\<dots> \<le> length (replaceAll Link d)" by (rule replaceAll_length)
  also have "\<dots> \<le> length d" by (rule replaceAll_length)
  finally show ?thesis .
qed

text \<open>How \<^verbatim>\<open>extractDescription\<close> is put together from the two iterations and the clean-up.\<close>

lemma extractDescription_eq:
  "\<exists>acc. accLoop (split 0x0A content)
            (length (takeWhile (\<lambda>l. startsWithHash (trim l) \<or> trim l = []) (take 5 (split 0x0A content)))) []
            = Inr acc \<and>
         extractDescription content =
           Inr (if cleanDescription acc = [] then None else Some (cleanDescription acc))"
proof -
  obtain acc where "accLoop (split 0x0A content)
      (length (takeWhile (\<lambda>l. startsWithHash (trim l) \<or> trim l = []) (take 5 (split 0x0A content)))) [] = Inr acc"
    using accLoop_total by blast
  then show ?thesis
    by (simp add: extractDescription_def Let_def skipLoop_start)
qed

text \<open>
  C7. When a line that is not blank is appended and the description then has more than 150
  units, the iteration stops. If some \<^verbatim>\<open>.\<close>, \<^verbatim>\<open>!\<close> or \<^verbatim>\<open>?\<close> is followed by whitespace, the
  description is cut after the first such mark; otherwise it is kept whole. (The description
  being accumulated is empty or starts with a unit that is not whitespace, and stays so
  when a line is appended; so the \<^verbatim>\<open>trim\<close> after the cut changes nothing.) Hence
  whatever the second iteration returns from the empty description has at most 150 units
  or contains no such mark followed by whitespace, and the description finally returned
  is no longer than that.
\<close>

theorem threshold_cut:
  assumes "i < length lines" and "trim (lines ! i) \<noteq> []"
    and "\<not> startsWithHash (trim (lines ! i))"
    and "d' = d @ (if d \<noteq> [] then [0x20] else []) @ trim (lines ! i)"
    and "150 < length d'" and "d = [] \<or> \<not> isSpace (hd d)"
  shows "(k + 1 < length d' \<and> isSentencePunct (d' ! k) \<and> isSpace (d' ! (k + 1)) \<and>
          (\<forall>j<k. \<not> (isSentencePunct (d' ! j) \<and> isSpace (d' ! (j + 1)))) \<longrightarrow>
            accLoop lines i d = Inr (take (k + 1) d')) \<and>
         ((\<forall>j. j + 1 < length d' \<longrightarrow> \<not> (isSentencePunct (d' ! j) \<and> isSpace (d' ! (j + 1)))) \<longrightarrow>
            accLoop lines i d = Inr d') \<and>
         d' \<noteq> [] \<and> \<not> isSpace (hd d') \<and>
         (accLoop ls n [] = Inr r \<longrightarrow>
            length r \<le> 150 \<or>
            (\<forall>j. j + 1 < length r \<longrightarrow> \<not> (isSentencePunct (r ! j) \<and> isSpace (r ! (j + 1))))) \<and>
         (extractDescription content = Inr (Some desc) \<longrightarrow>
            (\<exists>start r.
               skipLoop (split 0x0A content) 0 0 = Inr start \<and>
               accLoop (split 0x0A content) start [] = Inr r \<and>
               desc = cleanDescription r \<and> length desc \<le> length r \<and>
               (length r \<le> 150 \<or>
                (\<forall>j. j + 1 < length r \<longrightarrow> \<not> (isSentencePunct (r ! j) \<and> isSpace (r ! (j + 1)))))))"
proof -
  have long: "150 < length (d @ (if d \<noteq> [] then [0x20] else []) @ trim (lines ! i))"
    using assms(4,5) by (simp only:)
  have step: "accLoop lines i d =
      (case sentenceEnd d' of Some k \<Rightarrow> Inr (trim (take (k + 1) d')) | None \<Rightarrow> Inr d')"
    unfolding assms(4) using accLoop_append [OF assms(1,2,3), of d] long
    by (simp only: Let_def if_True)
  have hd: "d' \<noteq> [] \<and> \<not> isSpace (hd d')"
  proof (cases "d = []")
    case True
    with assms(2,4) trim_hd_not_space [of "lines ! i"] show ?thesis by simp
  next
    case False
    with assms(4,6) show ?thesis by simp
  qed
  have cut: "accLoop lines i d = Inr (take (k + 1) d')"
    if k: "k + 1 < length d'" "isSentencePunct (d' ! k)" "isSpace (d' ! (k + 1))"
      "\<forall>j<k. \<not> (isSentencePunct (d' ! j) \<and> isSpace (d' ! (j + 1)))"
  proof -
    from k have se: "sentenceEnd d' = Some k" by (simp only: sentenceEnd_Some_iff simp_thms)
    let ?t = "take (k + 1) d'"
    from hd have ne: "?t \<noteq> []" by simp
    from hd have h: "\<not> isSpace (hd ?t)" by simp
    from k(1) have "?t = take k d' @ [d' ! k]"
      by (simp add: take_Suc_conv_app_nth)
    then have "last ?t = d' ! k" by (simp only: last_snoc)
    with k(2) have l: "\<not> isSpace (last ?t)" by (simp add: punct_not_space)
    from trim_id [OF ne h l] se step show ?thesis by simp
  qed
  have whole: "accLoop lines i d = Inr d'"
    if "\<forall>j. j + 1 < length d' \<longrightarrow> \<not> (isSentencePunct (d' ! j) \<and> isSpace (d' ! (j + 1)))"
  proof -
    from that have "sentenceEnd d' = None" by (simp only: sentenceEnd_None_iff)
    with step show ?thesis by simp
  qed
  have bound: "length r \<le> 150 \<or>
      (\<forall>j. j + 1 < length r \<longrightarrow> \<not> (isSentencePunct (r ! j) \<and> isSpace (r ! (j + 1))))"
    if "accLoop ls n [] = Inr r" for ls n r
    using accLoop_bound [OF that] by (simp only: sentenceEnd_None_iff) simp
  have final: "\<exists>start r.
      skipLoop (split 0x0A content) 0 0 = Inr start \<and>
      accLoop (split 0x0A content) start [] = Inr r \<and>
      desc = cleanDescription r \<and> length desc \<le> length r \<and>
      (length r \<le> 150 \<or>
       (\<forall>j. j + 1 < length r \<longrightarrow> \<not> (isSentencePunct (r ! j) \<and> isSpace (r ! (j + 1)))))"
    if e: "extractDescription content = Inr (Some desc)"
  proof -
    let ?lines = "split 0x0A content"
    let ?start = "length (takeWhile (\<lambda>l. startsWithHash (trim l) \<or> trim l = []) (take 5 ?lines))"
    have s: "skipLoop ?lines 0 0 = Inr ?start" by (rule skipLoop_start)
    from extractDescription_eq [of content] obtain acc
      where a: "accLoop ?lines ?start [] = Inr acc"
        and x: "extractDescription content =
                  Inr (if cleanDescription acc = [] then None else Some (cleanDescription acc))"
      by blast
    from e x have d: "desc = cleanDescription acc" by (simp split: if_splits)
    with cleanDescription_length [of acc] have "length desc \<le> length acc" by simp
    with s a d bound [OF a] show ?thesis by blast
  qed
  from cut whole hd bound final show ?thesis by blast
qed

theorem threshold_cut_witness:
  "accLoop [[], js ''Short sentence. '' @ replicate 150 0x61, js ''next''] 1 [] =
     Inr (js ''Short sentence.'') \<and>
   accLoop [js ''begin'', replicate 150 0x61, js ''next''] 1 (js ''begin'') =
     Inr (js ''begin '' @ replicate 150 0x61) \<and>
   extractDescription (js ''# T'' @ [0x0A] @ js ''Short sentence. '' @ replicate 150 0x61) =
     Inr (Some (js ''Short sentence.''))"
proof -
  let ?l = "js ''Short sentence. '' @ replicate 150 0x61"
  let ?lines = "[[], ?l, js ''next'']"
  have h: "1 < length ?lines" "trim (?lines ! 1) \<noteq> []" "\<not> startsWithHash (trim (?lines ! 1))"
    "?l = [] @ (if ([] :: jsstring) \<noteq> [] then [0x20] else []) @ trim (?lines ! 1)"
    "150 < length ?l" "([] :: jsstring) = [] \<or> \<not> isSpace (hd [])"
    by code_simp+
  have "sentenceEnd ?l = Some 14" by code_simp
  then have b: "14 + 1 < length ?l \<and> isSentencePunct (?l ! 14) \<and> isSpace (?l ! (14 + 1)) \<and>
      (\<forall>j<14. \<not> (isSentencePunct (?l ! j) \<and> isSpace (?l ! (j + 1))))"
    by (rule iffD1 [OF sentenceEnd_Some_iff])
  have t: "take (14 + 1) ?l = js ''Short sentence.''" by code_simp
  from threshold_cut [OF h, of 14 "[]" 0 "[]" "[]" "[]"] b t
  have c1: "accLoop ?lines 1 [] = Inr (js ''Short sentence.'')" by simp
  let ?m = "js ''begin '' @ replicate 150 0x61"
  let ?l2 = "[js ''begin'', replicate 150 0x61, js ''next'']"
  have h2: "1 < length ?l2" "trim (?l2 ! 1) \<noteq> []" "\<not> startsWithHash (trim (?l2 ! 1))"
    "?m = js ''begin'' @ (if js ''begin'' \<noteq> [] then [0x20] else []) @ trim (?l2 ! 1)"
    "150 < length ?m" "js ''begin'' = [] \<or> \<not> isSpace (hd (js ''begin''))"
    by code_simp+
  have "sentenceEnd ?m = None" by code_simp
  then have n: "\<forall>j. j + 1 < length ?m \<longrightarrow> \<not> (isSentencePunct (?m ! j) \<and> isSpace (?m ! (j + 1)))"
    by (rule iffD1 [OF sentenceEnd_None_iff])
  from threshold_cut [OF h2, of 0 "[]" 0 "[]" "[]" "[]"] n
  have c2: "accLoop ?l2 1 (js ''begin'') = Inr ?m" by simp
  have c3: "extractDescription (js ''# T'' @ [0x0A] @ js ''Short sentence. '' @ replicate 150 0x61) =
     Inr (Some (js ''Short sentence.''))"
    by code_simp
  from c1 c2 c3 show ?thesis by simp
qed

subsection \<open>Totality and the absent description\<close>

lemma accLoop_headings_only:
  assumes "\<forall>l\<in>set lines. trim l = [] \<or> startsWithHash (trim l)"
  shows "accLoop lines i [] = Inr []"
proof (induction "length lines - i" arbitrary: i)
  case 0
  then have "\<not> i < length lines" by simp
  then show ?case by (rule accLoop_end)
next
  case (Suc n)
  then have lt: "i < length lines" by simp
  with assms have "trim (lines ! i) = [] \<or> startsWithHash (trim (lines ! i))" by simp
  then show ?case
  proof
    assume "startsWithHash (trim (lines ! i))"
    with lt show ?thesis by (rule accLoop_heading)
  next
    assume b: "trim (lines ! i) = []"
    from Suc.hyps(2) have "n = length lines - (i + 1)" by simp
    from Suc.hyps(1) [OF this] accLoop_blank_first [OF lt b] show ?thesis by simp
  qed
qed

lemma cleanDescription_Nil: "cleanDescription [] = []"
  by (simp add: cleanDescription_def trim_def)

text \<open>
  C9. \<^verbatim>\<open>parseReadme\<close> returns a record for every content and fallback name: no index is
  read outside the array of lines. With \<open>acc\<close> the description that the second iteration
  leaves, the field \<^verbatim>\<open>description\<close> is never the empty string; it is \<^verbatim>\<open>null\<close> exactly when
  the cleaned \<open>acc\<close> is empty and is the cleaned \<open>acc\<close> otherwise. When every line is blank or
  a heading line, it is \<^verbatim>\<open>null\<close>.
\<close>

theorem parseReadme_total:
  "\<exists>r start acc.
     parseReadme up content repoName = Inr r \<and>
     skipLoop (split 0x0A content) 0 0 = Inr start \<and>
     accLoop (split 0x0A content) start [] = Inr acc \<and>
     description r \<noteq> Some [] \<and>
     (description r = None \<longleftrightarrow> cleanDescription acc = []) \<and>
     (cleanDescription acc \<noteq> [] \<longrightarrow> description r = Some (cleanDescription acc)) \<and>
     ((\<forall>l\<in>set (split 0x0A content). trim l = [] \<or> startsWithHash (trim l)) \<longrightarrow>
        description r = None)"
proof -
  let ?lines = "split 0x0A content"
  let ?start = "length (takeWhile (\<lambda>l. startsWithHash (trim l) \<or> trim l = []) (take 5 ?lines))"
  have s: "skipLoop ?lines 0 0 = Inr ?start" by (rule skipLoop_start)
  from extractDescription_eq [of content] obtain acc
    where a: "accLoop ?lines ?start [] = Inr acc"
      and e: "extractDescription content =
                Inr (if cleanDescription acc = [] then None else Some (cleanDescription acc))"
    by blast
  define r where "r = \<lparr>title = extractTitle up content repoName,
             description = (if cleanDescription acc = [] then None else Some (cleanDescription acc))\<rparr>"
  from e have p: "parseReadme up content repoName = Inr r"
    by (simp add: parseReadme_def Let_def r_def)
  have h: "(\<forall>l\<in>set ?lines. trim l = [] \<or> startsWithHash (trim l)) \<longrightarrow> description r = None"
  proof
    assume "\<forall>l\<in>set ?lines. trim l = [] \<or> startsWithHash (trim l)"
    from accLoop_headings_only [OF this, of ?start] a have "acc = []" by simp
    then show "description r = None" by (simp add: cleanDescription_Nil r_def)
  qed
  have d: "description r \<noteq> Some [] \<and>
     (description r = None \<longleftrightarrow> cleanDescription acc = []) \<and>
     (cleanDescription acc \<noteq> [] \<longrightarrow> description r = Some (cleanDescription acc))"
    by (simp add: r_def)
  from p s a d h have "parseReadme up content repoName = Inr r \<and>
     skipLoop ?lines 0 0 = Inr ?start \<and>
     accLoop ?lines ?start [] = Inr acc \<and>
     description r \<noteq> Some [] \<and>
     (description r = None \<longleftrightarrow> cleanDescription acc = []) \<and>
     (cleanDescription acc \<noteq> [] \<longrightarrow> description r = Some (cleanDescription acc)) \<and>
     ((\<forall>l\<in>set ?lines. trim l = [] \<or> startsWithHash (trim l)) \<longrightarrow> description r = None)"
    by blast
  then show ?thesis by (intro exI)
qed

theorem parseReadme_total_witness:
  "split 0x0A (js ''# Guide'' @ [0x0A, 0x0A] @ js ''## Usage'') = [js ''# Guide'', [], js ''## Usage''] \<and>
   startsWithHash (trim (js ''# Guide'')) \<and> trim [] = [] \<and> startsWithHash (trim (js ''## Usage'')) \<and>
   parseReadme toUpperCaseAscii (js ''# Guide'' @ [0x0A, 0x0A] @ js ''## Usage'') (js ''shell-c'') =
     Inr \<lparr>title = js ''Guide'', description = None\<rparr> \<and>
   cleanDescription (js ''Some **bold** text.'') \<noteq> [] \<and>
   parseReadme toUpperCaseAscii (js ''Some **bold** text.'') (js ''shell-c'') =
     Inr \<lparr>title = js ''Some **bold** text.'', description = Some (js ''Some bold text.'')\<rparr>"
proof -
  let ?c = "js ''# Guide'' @ [0x0A, 0x0A] @ js ''## Usage''"
  have h: "\<forall>l\<in>set (split 0x0A ?c). trim l = [] \<or> startsWithHash (trim l)" by code_simp
  have t: "extractTitle toUpperCaseAscii ?c (js ''shell-c'') = js ''Guide''" by code_simp
  from parseReadme_total [of toUpperCaseAscii ?c "js ''shell-c''"] h
  obtain r where r: "parseReadme toUpperCaseAscii ?c (js ''shell-c'') = Inr r"
    and d: "description r = None" by blast
  from r have "title r = extractTitle toUpperCaseAscii ?c (js ''shell-c'')"
    by (auto simp: parseReadme_def Let_def split: sum.splits)
  with t d have "r = \<lparr>title = js ''Guide'', description = None\<rparr>" by simp
  with r have c1: "parseReadme toUpperCaseAscii ?c (js ''shell-c'') =
     Inr \<lparr>title = js ''Guide'', description = None\<rparr>" by simp
  let ?c2 = "js ''Some **bold** text.''"
  have s2: "skipLoop (split 0x0A ?c2) 0 0 = Inr 0" by code_simp
  have a2: "accLoop (split 0x0A ?c2) 0 [] = Inr ?c2" by code_simp
  have cl: "cleanDescription ?c2 = js ''Some bold text.''" by code_simp
  have ne: "cleanDescription ?c2 \<noteq> []" by code_simp
  have t2: "extractTitle toUpperCaseAscii ?c2 (js ''shell-c'') = ?c2" by code_simp
  from parseReadme_total [of toUpperCaseAscii ?c2 "js ''shell-c''"] s2 a2 ne
  obtain r2 where r2: "parseReadme toUpperCaseAscii ?c2 (js ''shell-c'') = Inr r2"
    and d2: "description r2 = Some (cleanDescription ?c2)" by auto
  from r2 have "title r2 = extractTitle toUpperCaseAscii ?c2 (js ''shell-c'')"
    by (auto simp: parseReadme_def Let_def split: sum.splits)
  with t2 d2 cl have "r2 = \<lparr>title = ?c2, description = Some (js ''Some bold text.'')\<rparr>" by simp
  with r2 have c2: "parseReadme toUpperCaseAscii ?c2 (js ''shell-c'') =
     Inr \<lparr>title = ?c2, description = Some (js ''Some bold text.'')\<rparr>" by simp
  have e: "split 0x0A ?c = [js ''# Guide'', [], js ''## Usage''] \<and>
      startsWithHash (trim (js ''# Guide'')) \<and> trim [] = [] \<and> startsWithHash (trim (js ''## Usage''))"
    by code_simp
  from e c1 ne c2 show ?thesis by simp
qed

subsection \<open>The clean-up\<close>

lemma matchAt_other: "opener k \<noteq> c \<Longrightarrow> matchAt k (c # s) = None"
  by (cases k) auto

lemma replaceAll_plain: "opener k \<notin> set s \<Longrightarrow> replaceAll k s = s"
  by (induction s) (simp_all add: matchAt_other)

lemma replaceAll_prefix: "opener k \<notin> set p \<Longrightarrow> replaceAll k (p @ s) = p @ replaceAll k s"
  by (induction p) (simp_all add: matchAt_other)

lemma runUntil_hit:
  assumes "t \<noteq> []" and "x \<notin> set t" and "hd close = x" and "close \<noteq> []"
  shows "runUntil x close (t @ close @ q) = Some (t, q)"
proof -
  from assms(3,4) obtain cs where c: "close = x # cs" by (cases close) auto
  from assms(2) have all: "\<forall>c\<in>set t. c \<noteq> x" by auto
  then have "takeWhile (\<lambda>c. c \<noteq> x) (t @ x # cs @ q) = t"
    by (simp add: takeWhile_append)
  moreover from all have "dropWhile (\<lambda>c. c \<noteq> x) (t @ x # cs @ q) = x # cs @ q"
    by (simp add: dropWhile_append)
  ultimately show ?thesis using assms(1) c by (simp add: runUntil_def Let_def)
qed

lemma match_bold:
  "t \<noteq> [] \<Longrightarrow> 0x2A \<notin> set t \<Longrightarrow> matchAt Bold (0x2A # 0x2A # t @ 0x2A # 0x2A # q) = Some (t, q)"
  using runUntil_hit [of t "0x2A" "[0x2A, 0x2A]" q] by simp

lemma match_italic:
  "t \<noteq> [] \<Longrightarrow> 0x2A \<notin> set t \<Longrightarrow> matchAt Italic (0x2A # t @ 0x2A # q) = Some (t, q)"
  using runUntil_hit [of t "0x2A" "[0x2A]" q] by simp

lemma match_code:
  "t \<noteq> [] \<Longrightarrow> 0x60 \<notin> set t \<Longrightarrow> matchAt Code (0x60 # t @ 0x60 # q) = Some (t, q)"
  using runUntil_hit [of t "0x60" "[0x60]" q] by simp

lemma match_link:
  assumes "t \<noteq> []" and "0x5D \<notin> set t" and "u \<noteq> []" and "0x29 \<notin> set u"
  shows "matchAt Link (0x5B # t @ 0x5D # 0x28 # u @ 0x29 # q) = Some (t, q)"
  using runUntil_hit [of t "0x5D" "[0x5D, 0x28]" "u @ 0x29 # q"]
    runUntil_hit [of u "0x29" "[0x29]" q] assms
  by simp

lemma star_start:
  assumes "list_all wellFormed ps" and "Bold \<in> set ks" and "Italic \<in> set ks"
  shows "prefix [0x2A] (concat (map (renderKeeping ks) ps)) \<longleftrightarrow> starFirst ps"
  using assms(1)
proof (induction ps)
  case Nil
  then show ?case by simp
next
  case (Cons p ps)
  show ?case
  proof (cases p)
    case (Plain x)
    with Cons show ?thesis by (cases x) auto
  next
    case (Deco k t u)
    with Cons.prems obtain c t' where t: "t = c # t'" and c: "c \<noteq> 0x2A"
      by (cases t) auto
    with Deco assms(2,3) show ?thesis by (cases k) auto
  qed
qed

lemma link_pass:
  assumes "list_all wellFormed ps"
  shows "replaceAll Link (concat (map (renderKeeping [Link, Bold, Italic, Code]) ps)) =
         concat (map (renderKeeping [Bold, Italic, Code]) ps)"
  using assms
proof (induction ps)
  case Nil
  then show ?case by simp
next
  case (Cons p ps)
  then have ih: "replaceAll Link (concat (map (renderKeeping [Link, Bold, Italic, Code]) ps)) =
         concat (map (renderKeeping [Bold, Italic, Code]) ps)" by simp
  show ?case
  proof (cases p)
    case (Plain x)
    with Cons.prems have "opener Link \<notin> set x" by simp
    with Plain ih show ?thesis by (simp add: replaceAll_prefix)
  next
    case (Deco k t u)
    show ?thesis
    proof (cases "k = Link")
      case True
      with Deco Cons.prems have w: "t \<noteq> []" "0x5D \<notin> set t" "u \<noteq> []" "0x29 \<notin> set u" by simp_all
      from match_link [OF w] True Deco ih show ?thesis by simp
    next
      case False
      with Deco Cons.prems have "opener Link \<notin> set (delimited k t u)" by (cases k) simp_all
      with False Deco ih show ?thesis by (cases k) (simp_all add: replaceAll_prefix)
    qed
  qed
qed

lemma bold_pass:
  assumes "list_all wellFormed ps" and "separated ps"
  shows "replaceAll Bold (concat (map (renderKeeping [Bold, Italic, Code]) ps)) =
         concat (map (renderKeeping [Italic, Code]) ps)"
  using assms
proof (induction ps)
  case Nil
  then show ?case by simp
next
  case (Cons p ps)
  let ?R = "concat (map (renderKeeping [Bold, Italic, Code]) ps)"
  from Cons.prems have wf: "list_all wellFormed ps" and sep: "separated ps"
    by (cases p; simp)+
  from Cons.IH [OF wf sep]
  have ih: "replaceAll Bold ?R = concat (map (renderKeeping [Italic, Code]) ps)" .
  show ?case
  proof (cases p)
    case (Plain x)
    with Cons.prems have "opener Bold \<notin> set x" by simp
    with Plain ih show ?thesis by (simp add: replaceAll_prefix)
  next
    case (Deco k t u)
    with Cons.prems have t: "t \<noteq> []" "0x2A \<notin> set t" by simp_all
    show ?thesis
    proof (cases k)
      case Link
      with t have "opener Bold \<notin> set t" by simp
      with Link Deco ih show ?thesis by (simp add: replaceAll_prefix)
    next
      case Bold
      from match_bold [OF t] Bold Deco ih show ?thesis by simp
    next
      case Italic
      with Deco Cons.prems have "\<not> starFirst ps" by simp
      with star_start [OF wf, of "[Bold, Italic, Code]"] have ns: "\<not> prefix [0x2A] ?R" by simp
      define R where "R = ?R"
      from t obtain c t' where tc: "t = c # t'" and c: "c \<noteq> 0x2A" by (cases t) auto
      then have 1: "matchAt Bold (0x2A # t @ 0x2A # R) = None" by simp
      from ns have "\<not> prefix [0x2A] R" unfolding R_def .
      then have 2: "matchAt Bold (0x2A # R) = None" by (cases R) auto
      from t have "opener Bold \<notin> set t" by simp
      then have "replaceAll Bold (t @ 0x2A # R) = t @ replaceAll Bold (0x2A # R)"
        by (rule replaceAll_prefix)
      with 1 2 have "replaceAll Bold (0x2A # t @ 0x2A # R) = 0x2A # t @ 0x2A # replaceAll Bold R"
        by simp
      then have "replaceAll Bold (0x2A # t @ 0x2A # ?R) = 0x2A # t @ 0x2A # replaceAll Bold ?R"
        unfolding R_def .
      with Italic Deco ih show ?thesis by simp
    next
      case Code
      with t have "opener Bold \<notin> set (delimited Code t u)" by simp
      with Code Deco ih show ?thesis by (simp add: replaceAll_prefix)
    qed
  qed
qed

lemma italic_pass:
  assumes "list_all wellFormed ps"
  shows "replaceAll Italic (concat (map (renderKeeping [Italic, Code]) ps)) =
         concat (map (renderKeeping [Code]) ps)"
  using assms
proof (induction ps)
  case Nil
  then show ?case by simp
next
  case (Cons p ps)
  then have ih: "replaceAll Italic (concat (map (renderKeeping [Italic, Code]) ps)) =
         concat (map (renderKeeping [Code]) ps)" by simp
  show ?case
  proof (cases p)
    case (Plain x)
    with Cons.prems have "opener Italic \<notin> set x" by simp
    with Plain ih show ?thesis by (simp add: replaceAll_prefix)
  next
    case (Deco k t u)
    with Cons.prems have t: "t \<noteq> []" "0x2A \<notin> set t" by simp_all
    show ?thesis
    proof (cases "k = Italic")
      case True
      from match_italic [OF t] True Deco ih show ?thesis by simp
    next
      case False
      with t have "opener Italic \<notin> set (renderKeeping [Italic, Code] (Deco k t u))"
        by (cases k) simp_all
      with False Deco ih show ?thesis by (cases k) (simp_all add: replaceAll_prefix)
    qed
  qed
qed

lemma code_pass:
  assumes "list_all wellFormed ps"
  shows "replaceAll Code (concat (map (renderKeeping [Code]) ps)) =
         concat (map (renderKeeping []) ps)"
  using assms
proof (induction ps)
  case Nil
  then show ?case by simp
next
  case (Cons p ps)
  then have ih: "replaceAll Code (concat (map (renderKeeping [Code]) ps)) =
         concat (map (renderKeeping []) ps)" by simp
  show ?case
  proof (cases p)
    case (Plain x)
    with Cons.prems have "opener Code \<notin> set x" by simp
    with Plain ih show ?thesis by (simp add: replaceAll_prefix)
  next
    case (Deco k t u)
    with Cons.prems have t: "t \<noteq> []" "0x60 \<notin> set t" by simp_all
    show ?thesis
    proof (cases "k = Code")
      case True
      from match_code [OF t] True Deco ih show ?thesis by simp
    next
      case False
      with t have "opener Code \<notin> set t" by simp
      with False Deco ih show ?thesis by (simp add: replaceAll_prefix)
    qed
  qed
qed

lemma cleanDescription_pieces:
  assumes "list_all wellFormed ps" and "separated ps"
  shows "cleanDescription (render ps) = trim (inner ps)"
  unfolding cleanDescription_def render_def inner_def
  by (simp only: link_pass [OF assms(1)] bold_pass [OF assms] italic_pass [OF assms(1)]
      code_pass [OF assms(1)])

text \<open>Content of one line that needs no trimming, is no heading and has at most 150 units
  is the description that the two iterations hand to the clean-up.\<close>

lemma single_line:
  assumes "0x0A \<notin> set content" and "content \<noteq> []" and "\<not> isSpace (hd content)"
    and "\<not> isSpace (last content)" and "hd content \<noteq> 0x23" and "length content \<le> 150"
  shows "skipLoop (split 0x0A content) 0 0 = Inr 0 \<and> accLoop (split 0x0A content) 0 [] = Inr content"
proof -
  have sp: "split 0x0A content = [content]" using assms(1) by (rule split_single)
  have tr: "trim content = content" using assms(2,3,4) by (rule trim_id)
  from assms(2,5) have nh: "\<not> startsWithHash content" by (cases content) auto
  have "skipLoop [content] 0 0 = Inr 0"
    using tr nh assms(2) by (simp add: skipLoop_start)
  moreover have "accLoop [content] 0 [] = Inr content"
  proof -
    have "accLoop [content] 0 [] = accLoop [content] (0 + 1) content"
      using tr nh assms(2,6) by (subst accLoop_append) (simp_all add: Let_def)
    also have "\<dots> = Inr content" by (rule accLoop_end) simp
    finally show ?thesis .
  qed
  ultimately show ?thesis by (simp only: sp simp_thms)
qed

text \<open>
  C8 (as the code has it). The clean-up runs on the description as the second iteration
  leaves it, so after the cut at the threshold: four passes, each from left to right and
  none repeated (links, bold, italic, inline code), then \<^verbatim>\<open>trim\<close>. Let that description be a
  sequence of plain text without \<^verbatim>\<open>[\<close>, \<^verbatim>\<open>*\<close> and backtick (parentheses and \<^verbatim>\<open>]\<close> may occur)
  and of decorations that are not nested: a link whose text is not empty and has none of
  \<^verbatim>\<open>[ ] *\<close> and no backtick and whose target is not empty and has no \<^verbatim>\<open>)\<close>; bold, italic or
  inline code around a text that is not empty and has none of \<^verbatim>\<open>[ *\<close> and no backtick; and
  no italic decoration directly followed by a bold or italic one. Then the description
  returned is that sequence with every decoration replaced by its inner text, trimmed, and
  \<^verbatim>\<open>null\<close> when that is empty. In particular this holds of content that is one such line of
  at most 150 units, not a heading, with no whitespace at either end.
\<close>

theorem decorations_cleaned:
  assumes "list_all wellFormed ps" and "separated ps"
  shows "(skipLoop (split 0x0A content) 0 0 = Inr start \<and>
          accLoop (split 0x0A content) start [] = Inr (render ps) \<longrightarrow>
            extractDescription content =
              Inr (if trim (inner ps) = [] then None else Some (trim (inner ps)))) \<and>
         (0x0A \<notin> set (render ps) \<and> render ps \<noteq> [] \<and> \<not> isSpace (hd (render ps)) \<and>
          \<not> isSpace (last (render ps)) \<and> hd (render ps) \<noteq> 0x23 \<and> length (render ps) \<le> 150 \<longrightarrow>
            extractDescription (render ps) =
              Inr (if trim (inner ps) = [] then None else Some (trim (inner ps))))"
proof -
  note clean = cleanDescription_pieces [OF assms]
  have a: "extractDescription c = Inr (if trim (inner ps) = [] then None else Some (trim (inner ps)))"
    if "skipLoop (split 0x0A c) 0 0 = Inr st" "accLoop (split 0x0A c) st [] = Inr (render ps)"
    for c st
    using that by (simp add: extractDescription_def Let_def clean)
  have b: "extractDescription (render ps) =
      Inr (if trim (inner ps) = [] then None else Some (trim (inner ps)))"
    if "0x0A \<notin> set (render ps)" "render ps \<noteq> []" "\<not> isSpace (hd (render ps))"
      "\<not> isSpace (last (render ps))" "hd (render ps) \<noteq> 0x23" "length (render ps) \<le> 150"
  proof -
    from single_line [OF that]
    have "skipLoop (split 0x0A (render ps)) 0 0 = Inr 0"
      and "accLoop (split 0x0A (render ps)) 0 [] = Inr (render ps)" by simp_all
    then show ?thesis by (rule a)
  qed
  from a b show ?thesis by blast
qed

theorem decorations_cleaned_witness:
  "list_all wellFormed
     [Plain (js ''Use ''), Deco Bold (js ''bold'') [], Plain (js '' (see ''),
      Deco Link (js ''the docs'') (js ''http://x/y''), Plain (js '') and ''),
      Deco Italic (js ''it'') [], Deco Code (js ''code'') [], Plain (js ''.'')] \<and>
   separated
     [Plain (js ''Use ''), Deco Bold (js ''bold'') [], Plain (js '' (see ''),
      Deco Link (js ''the docs'') (js ''http://x/y''), Plain (js '') and ''),
      Deco Italic (js ''it'') [], Deco Code (js ''code'') [], Plain (js ''.'')] \<and>
   render
     [Plain (js ''Use ''), Deco Bold (js ''bold'') [], Plain (js '' (see ''),
      Deco Link (js ''the docs'') (js ''http://x/y''), Plain (js '') and ''),
      Deco Italic (js ''it'') [], Deco Code (js ''code'') [], Plain (js ''.'')] =
     js ''Use **bold** (see [the docs](http://x/y)) and *it*`code`.'' \<and>
   extractDescription (js ''Use **bold** (see [the docs](http://x/y)) and *it*`code`.'') =
     Inr (Some (js ''Use bold (see the docs) and itcode.'')) \<and>
   extractDescription
     (js ''# Title'' @ [0x0A, 0x0A] @ js ''  Use **bold** (see [the docs](http://x/y)) and *it*`code`.'' @
      [0x0A, 0x0A] @ js ''More text.'') =
     Inr (Some (js ''Use bold (see the docs) and itcode.''))"
proof -
  let ?ps = "[Plain (js ''Use ''), Deco Bold (js ''bold'') [], Plain (js '' (see ''),
      Deco Link (js ''the docs'') (js ''http://x/y''), Plain (js '') and ''),
      Deco Italic (js ''it'') [], Deco Code (js ''code'') [], Plain (js ''.'')]"
  let ?d = "js ''Use **bold** (see [the docs](http://x/y)) and *it*`code`.''"
  let ?c = "js ''# Title'' @ [0x0A, 0x0A] @ js ''  Use **bold** (see [the docs](http://x/y)) and *it*`code`.'' @
      [0x0A, 0x0A] @ js ''More text.''"
  have w: "list_all wellFormed ?ps" by code_simp
  have s: "separated ?ps" by code_simp
  have r: "render ?ps = ?d" by code_simp
  have i: "trim (inner ?ps) = js ''Use bold (see the docs) and itcode.''" by code_simp
  have ne: "js ''Use bold (see the docs) and itcode.'' \<noteq> []" by code_simp
  have line: "0x0A \<notin> set ?d \<and> ?d \<noteq> [] \<and> \<not> isSpace (hd ?d) \<and>
          \<not> isSpace (last ?d) \<and> hd ?d \<noteq> 0x23 \<and> length ?d \<le> 150"
    by code_simp
  have iter: "skipLoop (split 0x0A ?c) 0 0 = Inr 2 \<and> accLoop (split 0x0A ?c) 2 [] = Inr ?d"
    by code_simp
  from decorations_cleaned [OF w s, of ?c 2] r i ne line iter
  have "extractDescription ?d = Inr (Some (js ''Use bold (see the docs) and itcode.'')) \<and>
        extractDescription ?c = Inr (Some (js ''Use bold (see the docs) and itcode.''))"
    by simp
  with w s r show ?thesis by (simp only: simp_thms)
qed

text \<open>
  C8 as stated fails. A decoration inside a decoration leaves link syntax in the
  description: in \<^verbatim>\<open>[[a](b)](c)\<close> and in the badge \<^verbatim>\<open>[![Build](https://img.svg)](https://ci)\<close> the
  link pattern matches from the first bracket to the inner target, what is left is a link
  again, and no pass runs a second time. And the cut at the threshold comes before the
  clean-up: a description of more than 150 units that starts \<^verbatim>\<open>Use **bold. text** here\<close> is
  cut after \<^verbatim>\<open>bold.\<close>, and the opening \<^verbatim>\<open>**\<close> stays.
\<close>

theorem decoration_left_counterexample:
  "extractDescription (js ''[[a](b)](c)'') = Inr (Some (js ''[a](c)'')) \<and>
   extractDescription (js ''[![Build](https://img.svg)](https://ci)'') =
     Inr (Some (js ''![Build](https://ci)'')) \<and>
   extractDescription (js ''Use **bold. text** here '' @ replicate 150 0x61) =
     Inr (Some (js ''Use **bold.''))"
  by code_simp

subsection \<open>Heading patterns and lines\<close>

lemma extractTitle_heading: "headingTitle content = Some t \<Longrightarrow> extractTitle up content repoName = t"
  by (auto simp: headingTitle_def extractTitle_def split: option.splits)

lemma my_title: "h1Match (js ''# My Title'' @ 0x0A # rest) = Some (js ''My Title'')"
  by (simp add: h1Match_def js_def isSpace_def isLineTerminator_def restOfLine_def)

lemma trim_my_title: "trim (js ''My Title'') = js ''My Title''"
  by code_simp

text \<open>
  C2. Content that starts with \<^verbatim>\<open># My Title\<close> and a line feed has the title \<^verbatim>\<open>My Title\<close>,
  whatever follows. But \<^verbatim>\<open>\s+\<close> also runs over line breaks: for \<^verbatim>\<open>#\<close>, line feed, \<^verbatim>\<open># real\<close>
  the level-1 pattern matches at the first line and captures the whole second line, so the
  title is \<^verbatim>\<open># real\<close>, where the first line that is a level-1 heading gives \<^verbatim>\<open>real\<close>.
\<close>

theorem heading_title_divergence:
  "extractTitle up (js ''# My Title'' @ 0x0A # rest) repoName = js ''My Title'' \<and>
   extractTitle toUpperCaseAscii (js ''#'' @ [0x0A] @ js ''# real'') (js ''shell-c'') = js ''# real'' \<and>
   spec_headingTitle (js ''#'' @ [0x0A] @ js ''# real'') = Some (js ''real'')"
proof -
  have "extractTitle up (js ''# My Title'' @ 0x0A # rest) repoName = js ''My Title''"
    by (simp add: extractTitle_def my_title trim_my_title)
  moreover have "extractTitle toUpperCaseAscii (js ''#'' @ [0x0A] @ js ''# real'') (js ''shell-c'') = js ''# real''"
    by code_simp
  moreover have "spec_headingTitle (js ''#'' @ [0x0A] @ js ''# real'') = Some (js ''real'')"
    by code_simp
  ultimately show ?thesis by (simp only: simp_thms)
qed

subsection \<open>Agreement with the line-by-line reading\<close>

lemma linesOf_not_Nil: "linesOf s \<noteq> []"
  by (induction s) (auto split: list.splits)

lemma hd_linesOf: "hd (linesOf s) = takeWhile (\<lambda>c. \<not> isLineTerminator c) s"
  by (induction s) (auto split: list.splits simp: linesOf_not_Nil)

lemma linesOf_Cons:
  "linesOf (c # s) =
     (if isLineTerminator c then [] # linesOf s else (c # hd (linesOf s)) # tl (linesOf s))"
  using linesOf_not_Nil [of s] by (cases "linesOf s") auto

lemma searchLines_True:
  "searchLines m True s = (case m s of Some r \<Rightarrow> Some r | None \<Rightarrow> searchLines m False s)"
  by (cases s) (auto split: option.splits)

lemma spacesThenRest_skip:
  "\<forall>c\<in>set ws. isSpace c \<Longrightarrow> spacesThenRest s = Some g \<Longrightarrow> spacesThenRest (ws @ s) = Some g"
  by (induction ws) auto

lemma spacesThenRest_text:
  assumes "\<not> isSpace c"
  shows "spacesThenRest (c # s) = Some (c # takeWhile (\<lambda>c. \<not> isLineTerminator c) s)"
proof -
  from assms have "\<not> isLineTerminator c" by (auto dest: lineTerminator_isSpace)
  with assms show ?thesis by (simp add: restOfLine_def)
qed

text \<open>Inside a line that holds text after the whitespace, the capture stays inside the line.\<close>

lemma spacesThenRest_line:
  assumes "\<not> list_all isSpace t" and "\<forall>c\<in>set t. \<not> isLineTerminator c"
    and "r = [] \<or> isLineTerminator (hd r)"
  shows "spacesThenRest (t @ r) = Some (dropWhile isSpace t)"
proof -
  let ?ws = "takeWhile isSpace t" and ?u = "dropWhile isSpace t"
  from assms(1) have "?u \<noteq> []" by (simp add: list_all_iff)
  then obtain c u' where u: "?u = c # u'" by (cases ?u) auto
  then have c: "\<not> isSpace c" by (metis hd_dropWhile list.sel(1) list.distinct(1))
  have "set ?u \<subseteq> set t" by (auto dest: set_dropWhileD)
  with u assms(2) have nolt: "\<forall>x\<in>set u'. \<not> isLineTerminator x" by auto
  from assms(3) have "takeWhile (\<lambda>c. \<not> isLineTerminator c) (u' @ r) = u'"
    using nolt by (cases r) (auto simp: takeWhile_append)
  with spacesThenRest_text [OF c, of "u' @ r"] have "spacesThenRest (?u @ r) = Some ?u"
    by (simp add: u)
  moreover have "\<forall>x\<in>set ?ws. isSpace x" by (auto dest: set_takeWhileD)
  ultimately have "spacesThenRest (?ws @ ?u @ r) = Some ?u"
    by (rule spacesThenRest_skip [rotated])
  then show ?thesis by (simp only: append_assoc [symmetric] takeWhile_dropWhile_id)
qed

lemma trim_dropWhile: "trim (dropWhile isSpace s) = trim s"
  by (simp add: trim_def)

lemma trim_Cons_space: "isSpace d \<Longrightarrow> trim (d # t) = trim t"
  by (simp add: trim_def)

lemma line_split:
  "\<exists>r. s = hd (linesOf s) @ r \<and> (r = [] \<or> isLineTerminator (hd r)) \<and>
       (\<forall>c\<in>set (hd (linesOf s)). \<not> isLineTerminator c)"
proof -
  let ?r = "dropWhile (\<lambda>c. \<not> isLineTerminator c) s"
  have "s = hd (linesOf s) @ ?r" by (simp add: hd_linesOf)
  moreover have "?r = [] \<or> isLineTerminator (hd ?r)"
    using hd_dropWhile [of "\<lambda>c. \<not> isLineTerminator c" s] by auto
  moreover have "\<forall>c\<in>set (hd (linesOf s)). \<not> isLineTerminator c"
    by (auto simp: hd_linesOf dest: set_takeWhileD)
  ultimately show ?thesis by blast
qed

lemma h1At_not_hash: "c \<noteq> 0x23 \<Longrightarrow> h1At (c # s) = None"
  by (cases s) auto

lemma h2At_not_hash: "c \<noteq> 0x23 \<Longrightarrow> h2At (c # s) = None"
  by (cases "c # s" rule: h2At.cases) auto

lemma hash_not_lineTerminator: "isLineTerminator c \<Longrightarrow> c \<noteq> 0x23"
  by (auto simp: isLineTerminator_def)

lemma h1At_line:
  assumes "\<not> isBare (hd (linesOf s))"
  shows "map_option trim (h1At s) =
         (if spec_isH1 (hd (linesOf s)) then Some (trim (drop 1 (hd (linesOf s)))) else None)"
proof -
  let ?l = "hd (linesOf s)"
  from line_split [of s] obtain r where s: "s = ?l @ r"
    and r: "r = [] \<or> isLineTerminator (hd r)" and nolt: "\<forall>c\<in>set ?l. \<not> isLineTerminator c"
    by blast
  show ?thesis
  proof (cases "spec_isH1 ?l")
    case True
    then obtain d t where l: "?l = 0x23 # d # t" and d: "isSpace d" and t: "t \<noteq> []"
      by (cases ?l rule: spec_isH1.cases) auto
    from assms l d have nb: "\<not> list_all isSpace t" by simp
    from nolt l have "\<forall>c\<in>set t. \<not> isLineTerminator c" by simp
    from spacesThenRest_line [OF nb this r] have "spacesThenRest (t @ r) = Some (dropWhile isSpace t)" .
    moreover from s l have "s = 0x23 # d # t @ r" by simp
    ultimately have "h1At s = Some (dropWhile isSpace t)" using d by simp
    with True l d show ?thesis by (simp add: trim_dropWhile trim_Cons_space)
  next
    case False
    have "h1At s = None"
    proof (cases ?l)
      case Nil
      with s r show ?thesis
        by (cases r) (auto simp: h1At_not_hash hash_not_lineTerminator)
    next
      case (Cons c l')
      show ?thesis
      proof (cases "c = 0x23")
        case c: False
        from s Cons have "s = c # l' @ r" by simp
        with c show ?thesis by (simp add: h1At_not_hash)
      next
        case c: True
        show ?thesis
        proof (cases l')
          case Nil
          with assms Cons c show ?thesis by simp
        next
          case l': (Cons d t)
          from False Cons c l' have dt: "\<not> isSpace d \<or> t = []" by simp
          from assms Cons c l' have "\<not> (isSpace d \<and> t = [])" by auto
          with dt have "\<not> isSpace d" by blast
          moreover from s Cons l' have "s = c # d # t @ r" by simp
          ultimately show ?thesis by simp
        qed
      qed
    qed
    with False show ?thesis by simp
  qed
qed

lemma h2At_second: "c' \<noteq> 0x23 \<Longrightarrow> h2At (c # c' # s) = None"
  by (cases s) auto

lemma h2At_line:
  assumes "\<not> isBare (hd (linesOf s))"
  shows "map_option trim (h2At s) =
         (if spec_isH2 (hd (linesOf s)) then Some (trim (drop 2 (hd (linesOf s)))) else None)"
proof -
  let ?l = "hd (linesOf s)"
  from line_split [of s] obtain r where s: "s = ?l @ r"
    and r: "r = [] \<or> isLineTerminator (hd r)" and nolt: "\<forall>c\<in>set ?l. \<not> isLineTerminator c"
    by blast
  show ?thesis
  proof (cases "spec_isH2 ?l")
    case True
    then obtain d t where l: "?l = 0x23 # 0x23 # d # t" and d: "isSpace d" and t: "t \<noteq> []"
      by (cases ?l rule: spec_isH2.cases) auto
    from assms l d have nb: "\<not> list_all isSpace t" by (simp add: hash_not_space)
    from nolt l have "\<forall>c\<in>set t. \<not> isLineTerminator c" by simp
    from spacesThenRest_line [OF nb this r] have "spacesThenRest (t @ r) = Some (dropWhile isSpace t)" .
    moreover from s l have "s = 0x23 # 0x23 # d # t @ r" by simp
    ultimately have "h2At s = Some (dropWhile isSpace t)" using d by simp
    with True l d show ?thesis by (simp add: trim_dropWhile trim_Cons_space)
  next
    case False
    have "h2At s = None"
    proof (cases ?l)
      case Nil
      with s r show ?thesis
        by (cases r) (auto simp: h2At_not_hash hash_not_lineTerminator)
    next
      case (Cons c l')
      from s Cons have sc: "s = c # l' @ r" by simp
      show ?thesis
      proof (cases "c = 0x23")
        case False
        with sc show ?thesis by (simp add: h2At_not_hash)
      next
        case c: True
        show ?thesis
        proof (cases l')
          case Nil
          with assms Cons c show ?thesis by simp
        next
          case l': (Cons c' l'')
          show ?thesis
          proof (cases "c' = 0x23")
            case False
            with sc l' show ?thesis by (simp add: h2At_second)
          next
            case c': True
            show ?thesis
            proof (cases l'')
              case Nil
              with assms Cons c l' c' show ?thesis by simp
            next
              case l'': (Cons d t)
              from False Cons c l' c' l'' have dt: "\<not> isSpace d \<or> t = []" by simp
              from assms Cons c l' c' l'' have "\<not> (isSpace d \<and> t = [])" by auto
              with dt have "\<not> isSpace d" by blast
              moreover from sc l' l'' have "s = c # c' # d # t @ r" by simp
              ultimately show ?thesis by simp
            qed
          qed
        qed
      qed
    qed
    with False show ?thesis by simp
  qed
qed

lemma search_by_lines:
  assumes A: "\<And>s. \<not> isBare (hd (linesOf s)) \<Longrightarrow>
      map_option trim (m s) = (if isH (hd (linesOf s)) then Some (f (hd (linesOf s))) else None)"
  shows "(\<forall>l\<in>set (tl (linesOf s)). \<not> isBare l) \<Longrightarrow>
      map_option trim (searchLines m False s) = map_option f (find isH (tl (linesOf s)))"
proof (induction s)
  case Nil
  then show ?case by simp
next
  case (Cons c s)
  show ?case
  proof (cases "isLineTerminator c")
    case False
    with Cons.prems have "\<forall>l\<in>set (tl (linesOf s)). \<not> isBare l"
      by (simp add: linesOf_Cons del: linesOf.simps)
    from Cons.IH [OF this] False show ?thesis by (simp add: linesOf_Cons del: linesOf.simps)
  next
    case True
    obtain l ls where ll: "linesOf s = l # ls"
      using linesOf_not_Nil [of s] by (cases "linesOf s") auto
    from True Cons.prems ll have nb: "\<not> isBare l" and rest: "\<forall>x\<in>set ls. \<not> isBare x"
      by (simp_all add: linesOf_Cons del: linesOf.simps)
    from A [of s] nb ll
    have a: "map_option trim (m s) = (if isH l then Some (f l) else None)" by simp
    from rest ll have "\<forall>x\<in>set (tl (linesOf s)). \<not> isBare x" by simp
    from Cons.IH [OF this] ll
    have ih: "map_option trim (searchLines m False s) = map_option f (find isH ls)" by simp
    have "searchLines m False (c # s) = searchLines m True s" using True by simp
    also have "\<dots> = (case m s of Some r \<Rightarrow> Some r | None \<Rightarrow> searchLines m False s)"
      by (rule searchLines_True)
    finally have "map_option trim (searchLines m False (c # s)) =
        (if isH l then Some (f l) else map_option f (find isH ls))"
      using a ih by (cases "m s") (auto split: if_splits)
    with True ll show ?thesis by (simp add: linesOf_Cons del: linesOf.simps)
  qed
qed

lemma search_from_start:
  assumes A: "\<And>s. \<not> isBare (hd (linesOf s)) \<Longrightarrow>
      map_option trim (m s) = (if isH (hd (linesOf s)) then Some (f (hd (linesOf s))) else None)"
    and nb: "\<forall>l\<in>set (linesOf s). \<not> isBare l"
  shows "map_option trim (searchLines m True s) = map_option f (find isH (linesOf s))"
proof -
  obtain l ls where ll: "linesOf s = l # ls"
    using linesOf_not_Nil [of s] by (cases "linesOf s") auto
  from A [of s] nb ll
  have a: "map_option trim (m s) = (if isH l then Some (f l) else None)" by simp
  from nb ll have "\<forall>x\<in>set (tl (linesOf s)). \<not> isBare x" by simp
  from search_by_lines [of m isH f, OF A this] ll
  have ih: "map_option trim (searchLines m False s) = map_option f (find isH ls)" by simp
  have "map_option trim (searchLines m True s) =
        (if isH l then Some (f l) else map_option f (find isH ls))"
    unfolding searchLines_True [of m s] using a ih by (cases "m s") (auto split: if_splits)
  with ll show ?thesis by simp
qed

text \<open>
  Where no line is one or two hashes followed only by whitespace, rules 1 and 2 of the
  code give the title of the line-by-line reading.
\<close>

lemma heading_title_agreement:
  assumes "\<forall>l\<in>set (linesOf content). \<not> isBare l"
  shows "headingTitle content = spec_headingTitle content"
proof -
  have 1: "map_option trim (h1Match content) =
           map_option (\<lambda>l. trim (drop 1 l)) (find spec_isH1 (linesOf content))"
    unfolding h1Match_def using h1At_line assms by (rule search_from_start)
  have 2: "map_option trim (h2Match content) =
           map_option (\<lambda>l. trim (drop 2 l)) (find spec_isH2 (linesOf content))"
    unfolding h2Match_def using h2At_line assms by (rule search_from_start)
  have "headingTitle content =
        (case map_option trim (h1Match content) of
           Some t \<Rightarrow> Some t
         | None \<Rightarrow> map_option trim (h2Match content))"
    by (simp add: headingTitle_def split: option.splits)
  also have "\<dots> = spec_headingTitle content"
    unfolding 1 2 by (simp add: spec_headingTitle_def split: option.splits)
  finally show ?thesis .
qed

subsection \<open>Indented headings\<close>

lemma startsWithHash_line: "startsWithHash s \<Longrightarrow> startsWithHash (hd (linesOf s))"
  unfolding hd_linesOf by (cases s) (auto dest: hash_not_lineTerminator)

lemma no_line_start_hash:
  assumes m: "\<And>c s. c \<noteq> 0x23 \<Longrightarrow> m (c # s) = None" "m [] = None"
  shows "(bol \<longrightarrow> \<not> startsWithHash s) \<Longrightarrow> (\<forall>l\<in>set (tl (linesOf s)). \<not> startsWithHash l) \<Longrightarrow>
         searchLines m bol s = None"
proof (induction s arbitrary: bol)
  case Nil
  then show ?case by (simp add: m(2))
next
  case (Cons c s)
  from Cons.prems(1) have here: "(if bol then m (c # s) else None) = None"
    by (auto simp: m(1))
  have "searchLines m (isLineTerminator c) s = None"
  proof (cases "isLineTerminator c")
    case True
    with Cons.prems(2) have all: "\<forall>l\<in>set (linesOf s). \<not> startsWithHash l"
      by (simp add: linesOf_Cons del: linesOf.simps)
    then have "\<not> startsWithHash (hd (linesOf s))"
      using linesOf_not_Nil [of s] by simp
    then have 1: "\<not> startsWithHash s" by (auto dest: startsWithHash_line)
    from all have 2: "\<forall>l\<in>set (tl (linesOf s)). \<not> startsWithHash l"
      by (auto dest: list.set_sel(2) [OF linesOf_not_Nil])
    from 1 2 show ?thesis by (intro Cons.IH) simp_all
  next
    case False
    with Cons.prems(2) have "\<forall>l\<in>set (tl (linesOf s)). \<not> startsWithHash l"
      by (simp add: linesOf_Cons del: linesOf.simps)
    with False show ?thesis by (intro Cons.IH) simp_all
  qed
  with here show ?case by simp
qed

lemma no_heading_without_line_start_hash:
  assumes "\<forall>l\<in>set (linesOf content). \<not> startsWithHash l"
  shows "h1Match content = None \<and> h2Match content = None"
proof -
  from assms have "\<not> startsWithHash (hd (linesOf content))"
    using linesOf_not_Nil [of content] by simp
  then have 1: "True \<longrightarrow> \<not> startsWithHash content" by (auto dest: startsWithHash_line)
  from assms have 2: "\<forall>l\<in>set (tl (linesOf content)). \<not> startsWithHash l"
    by (auto dest: list.set_sel(2) [OF linesOf_not_Nil])
  have e1: "h1At [] = None" and e2: "h2At [] = None" by simp_all
  have "searchLines h1At True content = None"
    by (rule no_line_start_hash [of h1At, OF h1At_not_hash e1 1 2])
  moreover have "searchLines h2At True content = None"
    by (rule no_line_start_hash [of h2At, OF h2At_not_hash e2 1 2])
  ultimately show ?thesis by (simp add: h1Match_def h2Match_def)
qed

text \<open>
  C10. For \<^verbatim>\<open>Intro\<close>, \<^verbatim>\<open>  # Setup\<close>, \<^verbatim>\<open>more\<close> the indented heading ends the description and
  the title is the first line: the description takes the line for a heading and the title
  does not. But the text of an indented heading can become the title all the same: for
  \<^verbatim>\<open>#\<close>, line feed, \<^verbatim>\<open>  # Setup\<close> no line is a heading in the line-by-line reading, yet the
  whitespace of the level-1 pattern runs from the \<^verbatim>\<open>#\<close> of the first line over the line
  break and the indentation, the rest of the indented line is captured, and the title is
  \<^verbatim>\<open># Setup\<close>.
\<close>

theorem indented_heading_divergence:
  "parseReadme toUpperCaseAscii
     (js ''Intro'' @ [0x0A] @ js ''  # Setup'' @ [0x0A] @ js ''more'') (js ''shell-c'') =
     Inr \<lparr>title = js ''Intro'', description = Some (js ''Intro'')\<rparr> \<and>
   parseReadme toUpperCaseAscii (js ''#'' @ [0x0A] @ js ''  # Setup'') (js ''shell-c'') =
     Inr \<lparr>title = js ''# Setup'', description = None\<rparr> \<and>
   spec_headingTitle (js ''#'' @ [0x0A] @ js ''  # Setup'') = None"
  by code_simp

text \<open>
  The description splits its lines at line feeds only, while \<^verbatim>\<open>^\<close> also holds after CR,
  U+2028 and U+2029. A line that one of these indents is a heading line for both: for
  \<^verbatim>\<open>Intro\<close>, line feed, CR, \<^verbatim>\<open># Setup\<close>, line feed, \<^verbatim>\<open>more\<close> the title is \<^verbatim>\<open>Setup\<close>.
\<close>

lemma carriage_return_line_start:
  "parseReadme toUpperCaseAscii
     (js ''Intro'' @ [0x0A, 0x0D] @ js ''# Setup'' @ [0x0A] @ js ''more'') (js ''shell-c'') =
     Inr \<lparr>title = js ''Setup'', description = Some (js ''Intro'')\<rparr>"
  by code_simp

end
